theory Spec2Isabelle
  imports Complex_Main
begin

section \<open>The autograd engine: data model\<close>

text \<open>
  The engine is the class \<open>Value\<close>. Objects are shared and mutated in place (the
  \<open>grad\<close> field), so the model keeps an explicit store: a heap is the list of all
  \<open>Value\<close> objects allocated so far and a reference is an index into it. \<open>new Value\<close>
  appends to the heap.

  JavaScript numbers are modelled as reals: rounding, \<open>NaN\<close> and the infinities of
  IEEE doubles are outside the model. The field \<open>id\<close>, a random string used by the
  visualizer only, is left out.
\<close>

type_synonym addr = nat

text \<open>
  The operation tag \<open>_op\<close>: \<open>''\<close>, \<open>'+'\<close>, \<open>'*'\<close>, the template \<open>**${other}\<close>,
  \<open>'ReLU'\<close>, \<open>'tanh'\<close>, \<open>'exp'\<close>.
\<close>

datatype op_tag = OpNone | OpAdd | OpMul | OpPow real | OpReLU | OpTanh | OpExp

text \<open>
  The arrow functions assigned to \<open>_backward\<close>. Each constructor stands for one
  function body of the source and carries the variables that body captures:
  \<open>this\<close>, \<open>other\<close> and \<open>out\<close> (references), the numeric exponent of \<open>pow\<close>,
  and the constant \<open>t\<close> of \<open>tanh\<close>. \<open>Noop\<close> is the constructor's \<open>() => {}\<close>.
\<close>

datatype closure =
    Noop
  | AddBw addr addr addr
  | MulBw addr addr addr
  | PowBw addr real addr
  | ReluBw addr addr
  | TanhBw addr real addr
  | ExpBw addr addr

record Value =
  data :: real
  grad :: real
  u_backward :: closure
  u_prev :: "addr list"
  u_op :: op_tag
  label :: string

type_synonym heap = "Value list"

text \<open>
  \<open>new Set(children)\<close>: insertion order, the first occurrence of a repeated element
  kept.
\<close>

fun new_Set :: "addr list \<Rightarrow> addr list" where
  "new_Set [] = []"
| "new_Set (x # xs) = x # filter (\<lambda>y. y \<noteq> x) (new_Set xs)"

text \<open>The constructor: the new object is allocated at the end of the heap.\<close>

definition new_Value :: "real \<Rightarrow> addr list \<Rightarrow> op_tag \<Rightarrow> string \<Rightarrow> heap \<Rightarrow> addr \<times> heap" where
  "new_Value d children op lbl h =
     (length h,
      h @ [\<lparr>data = d, grad = 0, u_backward = Noop, u_prev = new_Set children,
            u_op = op, label = lbl\<rparr>])"

definition createValue :: "real \<Rightarrow> string \<Rightarrow> heap \<Rightarrow> addr \<times> heap" where
  "createValue d lbl h = new_Value d [] OpNone lbl h"

definition set_backward :: "addr \<Rightarrow> closure \<Rightarrow> heap \<Rightarrow> heap" where
  "set_backward v c h = h[v := (h ! v)\<lparr>u_backward := c\<rparr>]"

definition set_label :: "addr \<Rightarrow> string \<Rightarrow> heap \<Rightarrow> heap" where
  "set_label v l h = h[v := (h ! v)\<lparr>label := l\<rparr>]"

definition set_grad :: "addr \<Rightarrow> real \<Rightarrow> heap \<Rightarrow> heap" where
  "set_grad v g h = h[v := (h ! v)\<lparr>grad := g\<rparr>]"

text \<open>\<open>v.grad += x\<close>\<close>

definition add_grad :: "addr \<Rightarrow> real \<Rightarrow> heap \<Rightarrow> heap" where
  "add_grad v x h = set_grad v (grad (h ! v) + x) h"

section \<open>Operations\<close>

text \<open>
  The argument of a binary operation is a \<open>Value\<close> or a raw number;
  \<open>other instanceof Value ? other : new Value(other)\<close> promotes the number to a leaf.
\<close>

datatype operand = Val addr | Num real

fun as_Value :: "operand \<Rightarrow> heap \<Rightarrow> addr \<times> heap" where
  "as_Value (Val a) h = (a, h)"
| "as_Value (Num x) h = new_Value x [] OpNone [] h"

definition add :: "addr \<Rightarrow> operand \<Rightarrow> heap \<Rightarrow> addr \<times> heap" where
  "add this other0 h =
     (let (other, h1) = as_Value other0 h;
          (out, h2) = new_Value (data (h1 ! this) + data (h1 ! other)) [this, other] OpAdd [] h1
      in (out, set_backward out (AddBw this other out) h2))"

definition mul :: "addr \<Rightarrow> operand \<Rightarrow> heap \<Rightarrow> addr \<times> heap" where
  "mul this other0 h =
     (let (other, h1) = as_Value other0 h;
          (out, h2) = new_Value (data (h1 ! this) * data (h1 ! other)) [this, other] OpMul [] h1
      in (out, set_backward out (MulBw this other out) h2))"

text \<open>
  \<open>Math.pow\<close> on reals: an integer exponent is repeated multiplication (a negative
  one inverts), any other exponent is the real power. It agrees with the source
  wherever the source's result is a finite number.
\<close>

definition Math_pow :: "real \<Rightarrow> real \<Rightarrow> real" where
  "Math_pow x y = (if y = of_int \<lfloor>y\<rfloor> then x powi \<lfloor>y\<rfloor> else x powr y)"

text \<open>
  The argument of \<open>pow\<close> is any JavaScript value; \<open>typeof other !== 'number'\<close>
  tells the numbers from the rest (a \<open>Value\<close>, or anything else).
\<close>

datatype jsval = JNumber real | JValue addr | JOther

datatype error = Error string

definition pow :: "addr \<Rightarrow> jsval \<Rightarrow> heap \<Rightarrow> (error + addr) \<times> heap" where
  "pow this other h =
     (case other of
        JNumber p \<Rightarrow>
          (let (out, h1) = new_Value (Math_pow (data (h ! this)) p) [this] (OpPow p) [] h
           in (Inr out, set_backward out (PowBw this p out) h1))
      | _ \<Rightarrow> (Inl (Error ''only supporting number powers for now''), h))"

definition relu :: "addr \<Rightarrow> heap \<Rightarrow> addr \<times> heap" where
  "relu this h =
     (let (out, h1) = new_Value (if data (h ! this) < 0 then 0 else data (h ! this))
                        [this] OpReLU [] h
      in (out, set_backward out (ReluBw this out) h1))"

definition tanh_op :: "addr \<Rightarrow> heap \<Rightarrow> addr \<times> heap" where
  "tanh_op this h =
     (let x = data (h ! this);
          t = (exp (2 * x) - 1) / (exp (2 * x) + 1);
          (out, h1) = new_Value t [this] OpTanh [] h
      in (out, set_backward out (TanhBw this t out) h1))"

definition exp_op :: "addr \<Rightarrow> heap \<Rightarrow> addr \<times> heap" where
  "exp_op this h =
     (let x = data (h ! this);
          (out, h1) = new_Value (exp x) [this] OpExp [] h
      in (out, set_backward out (ExpBw this out) h1))"

text \<open>
  The derived operations. \<open>div\<close> calls \<open>pow(-1)\<close> on the divisor (promoted first when
  it is a raw number) and multiplies; an exception of \<open>pow\<close> would propagate.
\<close>

definition div_op :: "addr \<Rightarrow> operand \<Rightarrow> heap \<Rightarrow> (error + addr) \<times> heap" where
  "div_op this other0 h =
     (let (other, h1) = as_Value other0 h
      in case pow other (JNumber (- 1)) h1 of
           (Inl e, h2) \<Rightarrow> (Inl e, h2)
         | (Inr r, h2) \<Rightarrow> (let (out, h3) = mul this (Val r) h2 in (Inr out, h3)))"

definition neg :: "addr \<Rightarrow> heap \<Rightarrow> addr \<times> heap" where
  "neg this h = mul this (Num (- 1)) h"

definition sub :: "addr \<Rightarrow> operand \<Rightarrow> heap \<Rightarrow> addr \<times> heap" where
  "sub this other0 h =
     (let (other, h1) = as_Value other0 h;
          (n, h2) = neg other h1
      in add this (Val n) h2)"

section \<open>Backward propagation\<close>

text \<open>Calling a \<open>_backward\<close> function: the statements of its body, in order.\<close>

fun call_backward :: "closure \<Rightarrow> heap \<Rightarrow> heap" where
  "call_backward Noop h = h"
| "call_backward (AddBw this other out) h =
     (let h1 = add_grad this (1.0 * grad (h ! out)) h
      in add_grad other (1.0 * grad (h1 ! out)) h1)"
| "call_backward (MulBw this other out) h =
     (let h1 = add_grad this (data (h ! other) * grad (h ! out)) h
      in add_grad other (data (h1 ! this) * grad (h1 ! out)) h1)"
| "call_backward (PowBw this other out) h =
     add_grad this (other * Math_pow (data (h ! this)) (other - 1) * grad (h ! out)) h"
| "call_backward (ReluBw this out) h =
     add_grad this ((if data (h ! out) > 0 then 1 else 0) * grad (h ! out)) h"
| "call_backward (TanhBw this t out) h =
     add_grad this ((1 - t * t) * grad (h ! out)) h"
| "call_backward (ExpBw this out) h =
     add_grad this (data (h ! out) * grad (h ! out)) h"

text \<open>
  \<open>for (const child of v._prev) body(child)\<close>, where the body works on a state and
  may fail to return.
\<close>

fun for_each :: "('a \<Rightarrow> 's \<Rightarrow> 's option) \<Rightarrow> 'a list \<Rightarrow> 's \<Rightarrow> 's option" where
  "for_each f [] s = Some s"
| "for_each f (x # xs) s = (case f x s of None \<Rightarrow> None | Some s' \<Rightarrow> for_each f xs s')"

text \<open>
  The local function \<open>buildTopo\<close> of \<open>backward\<close>. Its state is the pair of the
  local variables \<open>visited\<close> (a Set) and \<open>topo\<close> (an array). The recursion of the
  source is bounded by nothing but the call stack; the first argument bounds the
  depth of the recursion, and \<open>None\<close> is the result of a call that needs more.
\<close>

primrec buildTopo :: "nat \<Rightarrow> heap \<Rightarrow> addr \<Rightarrow> addr set \<times> addr list \<Rightarrow> (addr set \<times> addr list) option" where
  "buildTopo 0 = (\<lambda>h v st. None)"
| "buildTopo (Suc n) = (\<lambda>h v st.
     (case st of (visited, topo) \<Rightarrow>
        if v \<notin> visited then
          (case for_each (buildTopo n h) (u_prev (h ! v)) (insert v visited, topo) of
             None \<Rightarrow> None
           | Some (visited', topo') \<Rightarrow> Some (visited', topo' @ [v]))
        else Some (visited, topo)))"

text \<open>
  \<open>for (let i = topo.length - 1; i >= 0; i--) topo[i]._backward()\<close>, given the
  elements \<open>topo[i]\<close> in the order of the loop.
\<close>

fun run_backwards :: "addr list \<Rightarrow> heap \<Rightarrow> heap" where
  "run_backwards [] h = h"
| "run_backwards (v # vs) h = run_backwards vs (call_backward (u_backward (h ! v)) h)"

definition backward :: "nat \<Rightarrow> addr \<Rightarrow> heap \<Rightarrow> heap option" where
  "backward fuel this h =
     (case buildTopo fuel h this ({}, []) of
        None \<Rightarrow> None
      | Some (visited, topo) \<Rightarrow> Some (run_backwards (rev topo) (set_grad this 1 h)))"

section \<open>Graph introspection\<close>

text \<open>
  The local function \<open>build\<close> of \<open>getNodes\<close>. \<open>nodes\<close> is a Set of references, kept
  as the list of its elements in insertion order; \<open>edges\<close> is a Set of fresh
  two-element arrays, none of which is equal to another, so \<open>add\<close> always appends.
\<close>

primrec build :: "nat \<Rightarrow> heap \<Rightarrow> addr \<Rightarrow> addr list \<times> (addr \<times> addr) list
    \<Rightarrow> (addr list \<times> (addr \<times> addr) list) option" where
  "build 0 = (\<lambda>h v st. None)"
| "build (Suc n) = (\<lambda>h v st.
     (case st of (nodes, edges) \<Rightarrow>
        if v \<notin> set nodes then
          for_each (\<lambda>child (nodes', edges'). build n h child (nodes', edges' @ [(child, v)]))
            (u_prev (h ! v)) (nodes @ [v], edges)
        else Some (nodes, edges)))"

definition getNodes :: "nat \<Rightarrow> addr \<Rightarrow> heap \<Rightarrow> (addr list \<times> (addr \<times> addr) list) option" where
  "getNodes fuel this h = build fuel h this ([], [])"

text \<open>\<open>nodes.forEach(node => { node.grad = 0; })\<close>\<close>

fun forEach_zero :: "addr list \<Rightarrow> heap \<Rightarrow> heap" where
  "forEach_zero [] h = h"
| "forEach_zero (v # vs) h = forEach_zero vs (set_grad v 0 h)"

definition zeroGrad :: "nat \<Rightarrow> addr \<Rightarrow> heap \<Rightarrow> heap option" where
  "zeroGrad fuel this h =
     (case getNodes fuel this h of
        None \<Rightarrow> None
      | Some (nodes, edges) \<Rightarrow> Some (forEach_zero nodes h))"

section \<open>The example expression\<close>

text \<open>\<open>Examples.complex\<close>: the references \<open>a, b, c, e, d, f, L\<close> and the heap.\<close>

definition Examples_complex :: "heap \<Rightarrow> (addr \<times> addr \<times> addr \<times> addr \<times> addr \<times> addr \<times> addr) \<times> heap" where
  "Examples_complex h0 =
     (let (a, h1) = createValue 2.0 ''a'' h0;
          (b, h2) = createValue (- 3.0) ''b'' h1;
          (c, h3) = createValue 10.0 ''c'' h2;
          (f, h4) = createValue (- 2.0) ''f'' h3;
          (e, h5) = mul a (Val b) h4;
          h6 = set_label e ''e'' h5;
          (d, h7) = add e (Val c) h6;
          h8 = set_label d ''d'' h7;
          (L, h9) = mul d (Val f) h8;
          h10 = set_label L ''L'' h9
      in ((a, b, c, e, d, f, L), h10))"

text \<open>\<open>Examples.basic.addition\<close>: the references \<open>a, b, c\<close> and the heap.\<close>

definition Examples_basic_addition :: "heap \<Rightarrow> (addr \<times> addr \<times> addr) \<times> heap" where
  "Examples_basic_addition h0 =
     (let (a, h1) = createValue 2.0 ''a'' h0;
          (b, h2) = createValue (- 3.0) ''b'' h1;
          (c, h3) = add a (Val b) h2;
          h4 = set_label c ''c'' h3
      in ((a, b, c), h4))"

text \<open>
  A graph with a shared operand, in the style of the examples: \<open>a = 2\<close>, \<open>b = 3\<close>,
  \<open>c = 5\<close>, \<open>p = a.mul(b)\<close>, \<open>q = a.mul(c)\<close>, at the addresses 0 to 4.
\<close>

definition shared_operand_heap :: heap where
  "shared_operand_heap =
     (let (a, h1) = createValue 2 ''a'' [];
          (b, h2) = createValue 3 ''b'' h1;
          (c, h3) = createValue 5 ''c'' h2;
          (p, h4) = mul a (Val b) h3;
          (q, h5) = mul a (Val c) h4
      in h5)"

section \<open>Well-formed heaps and reachability\<close>

text \<open>
  What the constructor and the operations establish for every object \<open>v\<close> of the
  heap: the operands in \<open>v._prev\<close> were allocated before \<open>v\<close> (so the operand graph
  is acyclic), \<open>_prev\<close> is a Set, and \<open>v._backward\<close> is the function that the
  operation which built \<open>v\<close> assigned: its \<open>out\<close> is \<open>v\<close> and its \<open>this\<close> and
  \<open>other\<close> are operands of \<open>v\<close>.
\<close>

fun closure_ok :: "addr \<Rightarrow> addr list \<Rightarrow> closure \<Rightarrow> bool" where
  "closure_ok v ps Noop = True"
| "closure_ok v ps (AddBw this other out) = (out = v \<and> this \<in> set ps \<and> other \<in> set ps)"
| "closure_ok v ps (MulBw this other out) = (out = v \<and> this \<in> set ps \<and> other \<in> set ps)"
| "closure_ok v ps (PowBw this other out) = (out = v \<and> this \<in> set ps)"
| "closure_ok v ps (ReluBw this out) = (out = v \<and> this \<in> set ps)"
| "closure_ok v ps (TanhBw this t out) = (out = v \<and> this \<in> set ps)"
| "closure_ok v ps (ExpBw this out) = (out = v \<and> this \<in> set ps)"

definition node_ok :: "heap \<Rightarrow> addr \<Rightarrow> bool" where
  "node_ok h v =
     ((\<forall>c \<in> set (u_prev (h ! v)). c < v) \<and> distinct (u_prev (h ! v))
      \<and> closure_ok v (u_prev (h ! v)) (u_backward (h ! v)))"

definition wf_heap :: "heap \<Rightarrow> bool" where
  "wf_heap h = (\<forall>v < length h. node_ok h v)"

text \<open>The same check, run along the list of objects allocated from address \<open>k\<close> on.\<close>

fun wf_from :: "addr \<Rightarrow> Value list \<Rightarrow> bool" where
  "wf_from k [] = True"
| "wf_from k (x # xs) =
     ((\<forall>c \<in> set (u_prev x). c < k) \<and> distinct (u_prev x)
      \<and> closure_ok k (u_prev x) (u_backward x) \<and> wf_from (Suc k) xs)"

text \<open>An argument that is a \<open>Value\<close> refers to an object of the heap.\<close>

fun operand_ok :: "heap \<Rightarrow> operand \<Rightarrow> bool" where
  "operand_ok h (Val a) = (a < length h)"
| "operand_ok h (Num x) = True"

text \<open>\<open>(c, v)\<close> is an edge when \<open>c\<close> is an operand of \<open>v\<close>.\<close>

definition operand_rel :: "heap \<Rightarrow> (addr \<times> addr) set" where
  "operand_rel h = {(c, v). c \<in> set (u_prev (h ! v))}"

text \<open>The nodes reachable from \<open>r\<close> through operand links, \<open>r\<close> included.\<close>

definition reachable :: "heap \<Rightarrow> addr \<Rightarrow> addr set" where
  "reachable h r = {v. (v, r) \<in> (operand_rel h)\<^sup>*}"

text \<open>The operand-to-consumer edges whose consumer is in \<open>S\<close>.\<close>

definition edges_of :: "heap \<Rightarrow> addr set \<Rightarrow> (addr \<times> addr) set" where
  "edges_of h S = {(c, v). v \<in> S \<and> c \<in> set (u_prev (h ! v))}"

text \<open>
  An order in which \<open>_backward\<close> functions may be called: no node is called twice,
  and no node is an operand of a node called after it.
\<close>

fun sched_ok :: "heap \<Rightarrow> addr list \<Rightarrow> bool" where
  "sched_ok h [] = True"
| "sched_ok h (u # rest) =
     (u \<notin> set rest \<and> (\<forall>w \<in> set rest. u \<notin> set (u_prev (h ! w))) \<and> sched_ok h rest)"

text \<open>
  The local derivative: what a call of the \<open>_backward\<close> function \<open>c\<close> adds to
  \<open>v.grad\<close>, per unit of \<open>out.grad\<close>. An operand that is both \<open>this\<close> and \<open>other\<close>
  receives both summands.
\<close>

fun local_grad :: "heap \<Rightarrow> closure \<Rightarrow> addr \<Rightarrow> real" where
  "local_grad h Noop v = 0"
| "local_grad h (AddBw this other out) v =
     (if v = this then 1 else 0) + (if v = other then 1 else 0)"
| "local_grad h (MulBw this other out) v =
     (if v = this then data (h ! other) else 0) + (if v = other then data (h ! this) else 0)"
| "local_grad h (PowBw this other out) v =
     (if v = this then other * Math_pow (data (h ! this)) (other - 1) else 0)"
| "local_grad h (ReluBw this out) v =
     (if v = this then (if data (h ! out) > 0 then 1 else 0) else 0)"
| "local_grad h (TanhBw this t out) v = (if v = this then 1 - t * t else 0)"
| "local_grad h (ExpBw this out) v = (if v = this then data (h ! out) else 0)"

definition contrib :: "heap \<Rightarrow> addr \<Rightarrow> addr \<Rightarrow> real" where
  "contrib h u v = local_grad h (u_backward (h ! u)) v"

text \<open>Two heaps that differ in \<open>grad\<close> fields only.\<close>

definition same_but_grad :: "heap \<Rightarrow> heap \<Rightarrow> bool" where
  "same_but_grad h h' =
     (length h' = length h \<and> (\<forall>v < length h. h' ! v = (h ! v)\<lparr>grad := grad (h' ! v)\<rparr>))"

text \<open>
  The invariant of the array \<open>topo\<close> while \<open>buildTopo\<close> runs: it holds the operands
  of each of its elements, and read from its end it is an order in which the
  \<open>_backward\<close> functions may be called.
\<close>

definition topo_inv :: "heap \<Rightarrow> addr list \<Rightarrow> bool" where
  "topo_inv h topo =
     ((\<forall>u \<in> set topo. set (u_prev (h ! u)) \<subseteq> set topo) \<and> sched_ok h (rev topo))"

text \<open>
  Two readings of "topological order" for the array \<open>topo\<close>. In the first, every
  node appears after all nodes that depend on it transitively (consumers first);
  in the second, every node appears after all nodes it depends on transitively
  (operands first).
\<close>

definition after_dependents :: "heap \<Rightarrow> addr list \<Rightarrow> bool" where
  "after_dependents h topo =
     (\<forall>i < length topo. \<forall>j < length topo.
        (topo ! i, topo ! j) \<in> (operand_rel h)\<^sup>+ \<longrightarrow> j < i)"

definition after_operands :: "heap \<Rightarrow> addr list \<Rightarrow> bool" where
  "after_operands h topo =
     (\<forall>i < length topo. \<forall>j < length topo.
        (topo ! j, topo ! i) \<in> (operand_rel h)\<^sup>+ \<longrightarrow> j < i)"

text \<open>\<open>root.backward(); root.backward()\<close>, with no \<open>zeroGrad\<close> in between.\<close>

definition backward_twice :: "nat \<Rightarrow> addr \<Rightarrow> heap \<Rightarrow> heap option" where
  "backward_twice fuel this h =
     (case backward fuel this h of None \<Rightarrow> None | Some h1 \<Rightarrow> backward fuel this h1)"

text \<open>Every node of \<open>S\<close> has in \<open>h2\<close> twice the gradient it has in \<open>h1\<close>.\<close>

definition grads_doubled :: "heap \<Rightarrow> heap \<Rightarrow> addr set \<Rightarrow> bool" where
  "grads_doubled h1 h2 S = (\<forall>v \<in> S. grad (h2 ! v) = 2 * grad (h1 ! v))"

section \<open>Reachability\<close>

lemma reachable_self: "v \<in> reachable h v"
  by (simp add: reachable_def)

lemma reachable_step: "c \<in> set (u_prev (h ! v)) \<Longrightarrow> x \<in> reachable h c \<Longrightarrow> x \<in> reachable h v"
proof -
  assume a: "c \<in> set (u_prev (h ! v))" and b: "x \<in> reachable h c"
  have "(c, v) \<in> operand_rel h" using a by (simp add: operand_rel_def)
  moreover have "(x, c) \<in> (operand_rel h)\<^sup>*" using b by (simp add: reachable_def)
  ultimately have "(x, v) \<in> (operand_rel h)\<^sup>*" by (rule rtrancl_into_rtrancl[rotated])
  then show ?thesis by (simp add: reachable_def)
qed

lemma reachable_cases:
  assumes "x \<in> reachable h v"
  shows "x = v \<or> (\<exists>c \<in> set (u_prev (h ! v)). x \<in> reachable h c)"
proof -
  from assms have "(x, v) \<in> (operand_rel h)\<^sup>*" by (simp add: reachable_def)
  then show ?thesis
  proof (cases rule: rtranclE)
    case base
    then show ?thesis by simp
  next
    case (step c)
    have "c \<in> set (u_prev (h ! v))" using step(2) by (simp add: operand_rel_def)
    moreover have "x \<in> reachable h c" using step(1) by (simp add: reachable_def)
    ultimately show ?thesis by blast
  qed
qed

lemma reachable_unfold:
  "reachable h v = insert v (\<Union>c \<in> set (u_prev (h ! v)). reachable h c)"
proof (rule set_eqI)
  fix x
  show "x \<in> reachable h v \<longleftrightarrow> x \<in> insert v (\<Union>c \<in> set (u_prev (h ! v)). reachable h c)"
    using reachable_cases[of x h v] reachable_self[of v h] reachable_step[of _ h v x]
    by auto
qed

lemma reachable_closed:
  assumes "r \<in> S" and "\<forall>u \<in> S. set (u_prev (h ! u)) \<subseteq> S"
  shows "reachable h r \<subseteq> S"
proof
  fix x assume "x \<in> reachable h r"
  then have "(x, r) \<in> (operand_rel h)\<^sup>*" by (simp add: reachable_def)
  then show "x \<in> S"
  proof (induction rule: converse_rtrancl_induct)
    case base
    then show ?case by (rule assms(1))
  next
    case (step y z)
    have "y \<in> set (u_prev (h ! z))" using step(1) by (simp add: operand_rel_def)
    then show ?case using assms(2) step(3) by blast
  qed
qed

lemma reachable_le:
  assumes "wf_heap h" "r < length h" "x \<in> reachable h r"
  shows "x \<le> r"
proof -
  have "r \<in> {..r}" by simp
  moreover have "\<forall>u \<in> {..r}. set (u_prev (h ! u)) \<subseteq> {..r}"
  proof (intro ballI subsetI)
    fix u c assume "u \<in> {..r}" "c \<in> set (u_prev (h ! u))"
    then have "u < length h" using assms(2) by simp
    then have "node_ok h u" using assms(1) by (simp add: wf_heap_def)
    then have "c < u" using \<open>c \<in> set (u_prev (h ! u))\<close> by (simp add: node_ok_def)
    then show "c \<in> {..r}" using \<open>u \<in> {..r}\<close> by simp
  qed
  ultimately have "reachable h r \<subseteq> {..r}" by (rule reachable_closed)
  then show ?thesis using assms(3) by auto
qed

section \<open>The topological order\<close>

lemma sched_ok_distinct: "sched_ok h xs \<Longrightarrow> distinct xs"
  by (induction xs) auto

lemma sched_ok_append:
  "sched_ok h (xs @ ys) \<Longrightarrow> u \<in> set xs \<Longrightarrow> w \<in> set ys \<Longrightarrow> u \<notin> set (u_prev (h ! w))"
  by (induction xs) auto

lemma topo_inv_Nil: "topo_inv h []"
  by (simp add: topo_inv_def)

lemma topo_inv_snoc:
  assumes "topo_inv h topo" "v \<notin> set topo" "set (u_prev (h ! v)) \<subseteq> set topo"
  shows "topo_inv h (topo @ [v])"
proof -
  have "\<forall>w \<in> set topo. v \<notin> set (u_prev (h ! w))"
    using assms(1,2) by (auto simp: topo_inv_def)
  then show ?thesis
    using assms by (auto simp: topo_inv_def)
qed

lemma topo_inv_reachable:
  assumes "topo_inv h topo" "v \<in> set topo"
  shows "reachable h v \<subseteq> set topo"
  using assms reachable_closed[of v "set topo" h] by (simp add: topo_inv_def)

lemma wf_heap_prev_less:
  "wf_heap h \<Longrightarrow> v < length h \<Longrightarrow> c \<in> set (u_prev (h ! v)) \<Longrightarrow> c < v"
  by (simp add: wf_heap_def node_ok_def)

lemma buildTopo_spec:
  assumes wf: "wf_heap h"
  shows "v < length h \<Longrightarrow> v < n \<Longrightarrow> topo_inv h topo \<Longrightarrow> set topo \<subseteq> vis
    \<Longrightarrow> (\<forall>u \<in> vis. u \<le> v \<longrightarrow> u \<in> set topo)
    \<Longrightarrow> \<exists>topo'. buildTopo n h v (vis, topo) = Some (vis \<union> reachable h v, topo')
          \<and> topo_inv h topo' \<and> set topo' = set topo \<union> reachable h v"
proof (induction v arbitrary: n vis topo rule: less_induct)
  case (less v)
  obtain m where n: "n = Suc m" and vm: "v \<le> m"
    using less.prems(2) by (cases n) auto
  show ?case
  proof (cases "v \<in> vis")
    case True
    then have "v \<in> set topo" using less.prems(5) by simp
    then have sub: "reachable h v \<subseteq> set topo"
      using less.prems(3) by (rule topo_inv_reachable[rotated])
    have "buildTopo n h v (vis, topo) = Some (vis, topo)"
      using True n by simp
    moreover have "vis \<union> reachable h v = vis" using sub less.prems(4) by auto
    moreover have "set topo \<union> reachable h v = set topo" using sub by auto
    ultimately show ?thesis using less.prems(3) by auto
  next
    case False
    have loop: "set cs \<subseteq> set (u_prev (h ! v)) \<Longrightarrow> topo_inv h tp \<Longrightarrow> set tp \<subseteq> vs
        \<Longrightarrow> (\<forall>u \<in> vs. u < v \<longrightarrow> u \<in> set tp)
        \<Longrightarrow> \<exists>tp'. for_each (buildTopo m h) cs (vs, tp)
                  = Some (vs \<union> (\<Union>c \<in> set cs. reachable h c), tp')
              \<and> topo_inv h tp' \<and> set tp' = set tp \<union> (\<Union>c \<in> set cs. reachable h c)"
      for cs vs tp
    proof (induction cs arbitrary: vs tp)
      case Nil
      then show ?case by simp
    next
      case (Cons c cs)
      have cv: "c < v"
        using Cons.prems(1) wf less.prems(1) by (auto intro: wf_heap_prev_less)
      have "\<forall>u \<in> vs. u \<le> c \<longrightarrow> u \<in> set tp" using Cons.prems(4) cv by auto
      with less.IH[OF cv, of m tp vs] cv vm less.prems(1) Cons.prems(2,3)
      obtain tp1 where
        r1: "buildTopo m h c (vs, tp) = Some (vs \<union> reachable h c, tp1)"
        and i1: "topo_inv h tp1" and s1: "set tp1 = set tp \<union> reachable h c"
        by auto
      have "set cs \<subseteq> set (u_prev (h ! v))" using Cons.prems(1) by simp
      moreover have "set tp1 \<subseteq> vs \<union> reachable h c" using s1 Cons.prems(3) by auto
      moreover have "\<forall>u \<in> vs \<union> reachable h c. u < v \<longrightarrow> u \<in> set tp1"
        using s1 Cons.prems(4) by auto
      ultimately obtain tp2 where
        r2: "for_each (buildTopo m h) cs (vs \<union> reachable h c, tp1)
               = Some (vs \<union> reachable h c \<union> (\<Union>c \<in> set cs. reachable h c), tp2)"
        and i2: "topo_inv h tp2"
        and s2: "set tp2 = set tp1 \<union> (\<Union>c \<in> set cs. reachable h c)"
        using Cons.IH[OF _ i1, of "vs \<union> reachable h c"] by blast
      have "for_each (buildTopo m h) (c # cs) (vs, tp)
              = Some (vs \<union> (\<Union>c \<in> set (c # cs). reachable h c), tp2)"
        using r1 r2 by (simp add: Un_assoc)
      moreover have "set tp2 = set tp \<union> (\<Union>c \<in> set (c # cs). reachable h c)"
        using s1 s2 by auto
      ultimately show ?case using i2 by blast
    qed
    have "set topo \<subseteq> insert v vis" using less.prems(4) by auto
    moreover have "\<forall>u \<in> insert v vis. u < v \<longrightarrow> u \<in> set topo"
      using less.prems(5) by auto
    ultimately obtain tp' where
      r: "for_each (buildTopo m h) (u_prev (h ! v)) (insert v vis, topo)
            = Some (insert v vis \<union> (\<Union>c \<in> set (u_prev (h ! v)). reachable h c), tp')"
      and i: "topo_inv h tp'"
      and s: "set tp' = set topo \<union> (\<Union>c \<in> set (u_prev (h ! v)). reachable h c)"
      using loop[OF subset_refl less.prems(3), of "insert v vis"] by blast
    have ru: "reachable h v = insert v (\<Union>c \<in> set (u_prev (h ! v)). reachable h c)"
      by (rule reachable_unfold)
    have "v \<notin> set topo" using False less.prems(4) by auto
    moreover have "v \<notin> (\<Union>c \<in> set (u_prev (h ! v)). reachable h c)"
    proof
      assume "v \<in> (\<Union>c \<in> set (u_prev (h ! v)). reachable h c)"
      then obtain c where c: "c \<in> set (u_prev (h ! v))" and vc: "v \<in> reachable h c" by auto
      have "c < v" using wf less.prems(1) c by (rule wf_heap_prev_less)
      moreover have "v \<le> c" using wf _ vc
      proof (rule reachable_le)
        show "c < length h" using \<open>c < v\<close> less.prems(1) by simp
      qed
      ultimately show False by simp
    qed
    ultimately have nin: "v \<notin> set tp'" using s by auto
    have "set (u_prev (h ! v)) \<subseteq> set tp'"
      using s reachable_self by fastforce
    with i nin have i': "topo_inv h (tp' @ [v])" by (rule topo_inv_snoc)
    have "buildTopo n h v (vis, topo)
            = Some (insert v vis \<union> (\<Union>c \<in> set (u_prev (h ! v)). reachable h c), tp' @ [v])"
      using False n r by simp
    moreover have "insert v vis \<union> (\<Union>c \<in> set (u_prev (h ! v)). reachable h c)
                     = vis \<union> reachable h v"
      using ru by auto
    moreover have "set (tp' @ [v]) = set topo \<union> reachable h v"
      using s ru by auto
    ultimately show ?thesis using i' by metis
  qed
qed

lemma topo_inv_prefix_closed:
  assumes "topo_inv h (xs @ ys)" "u \<in> set xs"
  shows "set (u_prev (h ! u)) \<subseteq> set xs"
proof
  fix c assume c: "c \<in> set (u_prev (h ! u))"
  have "c \<in> set (xs @ ys)" using assms c by (auto simp: topo_inv_def)
  moreover have "c \<notin> set ys"
  proof
    assume "c \<in> set ys"
    moreover have "sched_ok h (rev ys @ rev xs)" using assms(1) by (simp add: topo_inv_def)
    ultimately have "c \<notin> set (u_prev (h ! u))"
      using assms(2) sched_ok_append[of h "rev ys" "rev xs" c u] by simp
    then show False using c by simp
  qed
  ultimately show "c \<in> set xs" by simp
qed

lemma topo_inv_reachable_prefix:
  assumes "topo_inv h topo" "i < length topo"
  shows "reachable h (topo ! i) \<subseteq> set (take (Suc i) topo)"
proof (rule reachable_closed)
  show "topo ! i \<in> set (take (Suc i) topo)"
    using assms(2) by (simp add: take_Suc_conv_app_nth)
  have "topo_inv h (take (Suc i) topo @ drop (Suc i) topo)" using assms(1) by simp
  then show "\<forall>u \<in> set (take (Suc i) topo). set (u_prev (h ! u)) \<subseteq> set (take (Suc i) topo)"
    using topo_inv_prefix_closed by blast
qed

lemma trancl_operand_less:
  assumes "wf_heap h" "r < length h" "(x, r) \<in> (operand_rel h)\<^sup>+"
  shows "x < r \<and> x \<in> reachable h r"
proof -
  from assms(3) obtain c where xc: "(x, c) \<in> (operand_rel h)\<^sup>*" and cr: "(c, r) \<in> operand_rel h"
    by (auto elim: tranclE intro: trancl_into_rtrancl)
  have c: "c \<in> set (u_prev (h ! r))" using cr by (simp add: operand_rel_def)
  then have "c < r" using assms(1,2) by (auto intro: wf_heap_prev_less)
  moreover have "x \<in> reachable h c" using xc by (simp add: reachable_def)
  moreover from this have "x \<le> c" using assms(1,2) \<open>c < r\<close> reachable_le[of h c x] by simp
  ultimately show ?thesis using c reachable_step by auto
qed

lemma topo_inv_after_operands:
  assumes "wf_heap h" "topo_inv h topo" "set topo \<subseteq> {..<length h}"
  shows "after_operands h topo"
  unfolding after_operands_def
proof (intro allI impI)
  fix i j
  assume i: "i < length topo" and j: "j < length topo"
    and dep: "(topo ! j, topo ! i) \<in> (operand_rel h)\<^sup>+"
  have "topo ! i < length h" using assms(3) i by (auto simp: subset_iff)
  with dep assms(1) have lt: "topo ! j < topo ! i" and r: "topo ! j \<in> reachable h (topo ! i)"
    using trancl_operand_less by blast+
  from r have "topo ! j \<in> set (take (Suc i) topo)"
    using topo_inv_reachable_prefix[OF assms(2) i] by blast
  then obtain k where k: "k < Suc i" "k < length topo" "topo ! k = topo ! j"
    by (auto simp: in_set_conv_nth)
  have "distinct topo" using assms(2) sched_ok_distinct[of h "rev topo"] by (simp add: topo_inv_def)
  then have "k = j" using k(2,3) j by (simp add: nth_eq_iff_index_eq)
  moreover have "j \<noteq> i" using lt by auto
  ultimately show "j < i" using k(1) by simp
qed

lemma for_each_mono:
  assumes "\<And>x s r. x \<in> set xs \<Longrightarrow> f x s = Some r \<Longrightarrow> g x s = Some r"
  shows "for_each f xs s = Some r \<Longrightarrow> for_each g xs s = Some r"
  using assms
proof (induction xs arbitrary: s)
  case Nil
  then show ?case by simp
next
  case (Cons x xs)
  from Cons.prems(1) obtain s1 where f1: "f x s = Some s1" and f2: "for_each f xs s1 = Some r"
    by (auto split: option.splits)
  have "g x s = Some s1" using Cons.prems(2) f1 by simp
  moreover have "for_each g xs s1 = Some r" using Cons.IH[OF f2] Cons.prems(2) by simp
  ultimately show ?case by simp
qed

lemma buildTopo_Suc:
  "buildTopo n h v st = Some r \<Longrightarrow> buildTopo (Suc n) h v st = Some r"
proof (induction n arbitrary: v st r)
  case 0
  then show ?case by simp
next
  case (Suc n)
  obtain vis topo where st: "st = (vis, topo)" by (cases st)
  show ?case
  proof (cases "v \<in> vis")
    case True
    then have "r = (vis, topo)" using Suc.prems st by simp
    then show ?thesis using True st by simp
  next
    case False
    with Suc.prems st obtain vis' topo' where
      f: "for_each (buildTopo n h) (u_prev (h ! v)) (insert v vis, topo) = Some (vis', topo')"
      and r: "r = (vis', topo' @ [v])"
      by (auto split: option.splits)
    have "for_each (buildTopo (Suc n) h) (u_prev (h ! v)) (insert v vis, topo) = Some (vis', topo')"
      using f by (rule for_each_mono[rotated]) (rule Suc.IH)
    then show ?thesis using False st r by simp
  qed
qed

lemma buildTopo_mono:
  "buildTopo n h v st = Some r \<Longrightarrow> buildTopo (n + k) h v st = Some r"
  by (induction k) (auto dest: buildTopo_Suc)

lemma buildTopo_root:
  assumes "wf_heap h" "rt < length h" "rt < fuel"
  shows "\<exists>topo. buildTopo fuel h rt ({}, []) = Some (reachable h rt, topo)
          \<and> topo_inv h topo \<and> set topo = reachable h rt"
  using buildTopo_spec[OF assms(1,2,3) topo_inv_Nil, of "{}"] by simp

section \<open>The effect of the backward functions\<close>

lemma length_set_grad: "length (set_grad v g h) = length h"
  by (simp add: set_grad_def)

lemma nth_set_grad:
  "w < length h \<Longrightarrow> set_grad v g h ! w = (if w = v then (h ! v)\<lparr>grad := g\<rparr> else h ! w)"
  by (simp add: set_grad_def nth_list_update)

lemma length_add_grad: "length (add_grad v x h) = length h"
  by (simp add: add_grad_def set_grad_def)

lemma nth_add_grad:
  "w < length h \<Longrightarrow>
   add_grad v x h ! w = (if w = v then (h ! v)\<lparr>grad := grad (h ! v) + x\<rparr> else h ! w)"
  by (simp add: add_grad_def set_grad_def nth_list_update)

lemma same_but_grad_refl: "same_but_grad h h"
  by (simp add: same_but_grad_def)

lemma same_but_grad_fields:
  assumes "same_but_grad h h'" "v < length h"
  shows "data (h' ! v) = data (h ! v)" "u_prev (h' ! v) = u_prev (h ! v)"
    "u_backward (h' ! v) = u_backward (h ! v)" "u_op (h' ! v) = u_op (h ! v)"
    "label (h' ! v) = label (h ! v)"
proof -
  have e: "h' ! v = (h ! v)\<lparr>grad := grad (h' ! v)\<rparr>"
    using assms by (simp add: same_but_grad_def)
  show "data (h' ! v) = data (h ! v)" using arg_cong[OF e, of data] by simp
  show "u_prev (h' ! v) = u_prev (h ! v)" using arg_cong[OF e, of u_prev] by simp
  show "u_backward (h' ! v) = u_backward (h ! v)" using arg_cong[OF e, of u_backward] by simp
  show "u_op (h' ! v) = u_op (h ! v)" using arg_cong[OF e, of u_op] by simp
  show "label (h' ! v) = label (h ! v)" using arg_cong[OF e, of label] by simp
qed

lemma same_but_grad_length: "same_but_grad h h' \<Longrightarrow> length h' = length h"
  by (simp add: same_but_grad_def)

lemma same_but_grad_trans:
  assumes "same_but_grad h h1" "same_but_grad h1 h2"
  shows "same_but_grad h h2"
  unfolding same_but_grad_def
proof (intro conjI allI impI)
  show "length h2 = length h" using assms by (simp add: same_but_grad_def)
next
  fix v assume v: "v < length h"
  have "h1 ! v = (h ! v)\<lparr>grad := grad (h1 ! v)\<rparr>" using assms(1) v by (simp add: same_but_grad_def)
  moreover have "h2 ! v = (h1 ! v)\<lparr>grad := grad (h2 ! v)\<rparr>"
    using assms v by (simp add: same_but_grad_def)
  ultimately show "h2 ! v = (h ! v)\<lparr>grad := grad (h2 ! v)\<rparr>"
    by (metis Value.surjective Value.update_convs(2))
qed

lemma same_but_grad_set_grad: "same_but_grad h (set_grad v g h)"
proof (cases "v < length h")
  case True
  then show ?thesis by (simp add: same_but_grad_def set_grad_def nth_list_update)
next
  case False
  then show ?thesis by (simp add: same_but_grad_def set_grad_def)
qed

lemma same_but_grad_add_grad: "same_but_grad h (add_grad v x h)"
  by (simp add: add_grad_def same_but_grad_set_grad)

lemma same_but_grad_wf:
  assumes "same_but_grad h h'" "wf_heap h"
  shows "wf_heap h'"
  unfolding wf_heap_def
proof (intro allI impI)
  fix v assume "v < length h'"
  then have v: "v < length h" using assms(1) by (simp add: same_but_grad_def)
  then have "node_ok h v" using assms(2) by (simp add: wf_heap_def)
  then show "node_ok h' v"
    using same_but_grad_fields[OF assms(1) v] by (simp add: node_ok_def)
qed

lemma wf_heap_closure:
  "wf_heap h \<Longrightarrow> u < length h \<Longrightarrow> closure_ok u (u_prev (h ! u)) (u_backward (h ! u))"
  by (simp add: wf_heap_def node_ok_def)

lemma contrib_zero:
  assumes "wf_heap h" "u < length h" "v \<notin> set (u_prev (h ! u))"
  shows "contrib h u v = 0"
  using wf_heap_closure[OF assms(1,2)] assms(3)
  by (cases "u_backward (h ! u)") (auto simp: contrib_def)

lemma contrib_self_zero:
  assumes "wf_heap h" "u < length h"
  shows "contrib h u u = 0"
  using assms wf_heap_prev_less[OF assms, of u] by (intro contrib_zero) auto

lemma same_but_grad_contrib:
  assumes "same_but_grad h h'" "wf_heap h" "u < length h"
  shows "contrib h' u v = contrib h u v"
proof -
  have ok: "closure_ok u (u_prev (h ! u)) (u_backward (h ! u))"
    using assms(2,3) by (rule wf_heap_closure)
  have lt: "\<And>c. c \<in> set (u_prev (h ! u)) \<Longrightarrow> c < length h"
    using wf_heap_prev_less[OF assms(2,3)] assms(3) by fastforce
  have d: "\<And>c. c < length h \<Longrightarrow> data (h' ! c) = data (h ! c)"
    using same_but_grad_fields(1)[OF assms(1)] by simp
  have b: "u_backward (h' ! u) = u_backward (h ! u)"
    using same_but_grad_fields(3)[OF assms(1,3)] .
  show ?thesis
    using ok lt d assms(3) unfolding contrib_def b
    by (cases "u_backward (h ! u)") auto
qed

lemma call_backward_effect:
  assumes "wf_heap h" "u < length h"
  shows "same_but_grad h (call_backward (u_backward (h ! u)) h)"
    and "\<forall>v < length h. grad (call_backward (u_backward (h ! u)) h ! v)
           = grad (h ! v) + contrib h u v * grad (h ! u)"
proof -
  have ok: "closure_ok u (u_prev (h ! u)) (u_backward (h ! u))"
    using assms by (rule wf_heap_closure)
  have lt: "\<And>c. c \<in> set (u_prev (h ! u)) \<Longrightarrow> c < u"
    using wf_heap_prev_less[OF assms] by simp
  show "same_but_grad h (call_backward (u_backward (h ! u)) h)"
    by (cases "u_backward (h ! u)")
       (auto simp: Let_def same_but_grad_refl same_but_grad_add_grad
             intro: same_but_grad_trans[OF same_but_grad_add_grad same_but_grad_add_grad])
  show "\<forall>v < length h. grad (call_backward (u_backward (h ! u)) h ! v)
           = grad (h ! v) + contrib h u v * grad (h ! u)"
  proof (cases "u_backward (h ! u)")
    case Noop
    then show ?thesis by (simp add: contrib_def)
  next
    case (AddBw t ot out)
    then have "out = u" "t < u" "ot < u" using ok lt by auto
    then show ?thesis using AddBw assms(2)
      by (auto simp: contrib_def Let_def nth_add_grad length_add_grad)
  next
    case (MulBw t ot out)
    then have "out = u" "t < u" "ot < u" using ok lt by auto
    then show ?thesis using MulBw assms(2)
      by (auto simp: contrib_def Let_def nth_add_grad length_add_grad)
  next
    case (PowBw t p out)
    then have "out = u" "t < u" using ok lt by auto
    then show ?thesis using PowBw assms(2)
      by (auto simp: contrib_def Let_def nth_add_grad length_add_grad)
  next
    case (ReluBw t out)
    then have "out = u" "t < u" using ok lt by auto
    then show ?thesis using ReluBw assms(2)
      by (auto simp: contrib_def Let_def nth_add_grad length_add_grad)
  next
    case (TanhBw t tt out)
    then have "out = u" "t < u" using ok lt by auto
    then show ?thesis using TanhBw assms(2)
      by (auto simp: contrib_def Let_def nth_add_grad length_add_grad)
  next
    case (ExpBw t out)
    then have "out = u" "t < u" using ok lt by auto
    then show ?thesis using ExpBw assms(2)
      by (auto simp: contrib_def Let_def nth_add_grad length_add_grad)
  qed
qed

lemma sum_list_all_zero: "(\<And>x. x \<in> set xs \<Longrightarrow> f x = (0::real)) \<Longrightarrow> sum_list (map f xs) = 0"
  by (induction xs) auto

lemma same_but_grad_sched_ok:
  assumes "same_but_grad h h'" "set L \<subseteq> {..<length h}"
  shows "sched_ok h' L = sched_ok h L"
  using assms(2)
proof (induction L)
  case Nil
  then show ?case by simp
next
  case (Cons u rest)
  have "\<And>w. w \<in> set rest \<Longrightarrow> u_prev (h' ! w) = u_prev (h ! w)"
    using Cons.prems same_but_grad_fields(2)[OF assms(1)] by auto
  then show ?case using Cons by simp
qed

lemma run_backwards_spec:
  assumes "wf_heap h" "set L \<subseteq> {..<length h}" "sched_ok h L"
  shows "same_but_grad h (run_backwards L h)
    \<and> (\<forall>v < length h. grad (run_backwards L h ! v)
          = grad (h ! v) + (\<Sum>u\<leftarrow>L. contrib h u v * grad (run_backwards L h ! u)))"
  using assms
proof (induction L arbitrary: h)
  case Nil
  then show ?case by (simp add: same_but_grad_refl)
next
  case (Cons u rest)
  define h1 where "h1 = call_backward (u_backward (h ! u)) h"
  define hF where "hF = run_backwards rest h1"
  have u: "u < length h" using Cons.prems(2) by simp
  have rest: "set rest \<subseteq> {..<length h}" using Cons.prems(2) by simp
  have s1: "same_but_grad h h1"
    unfolding h1_def using Cons.prems(1) u by (rule call_backward_effect(1))
  have g1: "\<And>v. v < length h \<Longrightarrow> grad (h1 ! v) = grad (h ! v) + contrib h u v * grad (h ! u)"
    unfolding h1_def using call_backward_effect(2)[OF Cons.prems(1) u] by simp
  have len1: "length h1 = length h" using s1 by (rule same_but_grad_length)
  have wf1: "wf_heap h1" using s1 Cons.prems(1) by (rule same_but_grad_wf)
  have ok1: "sched_ok h1 rest"
    using same_but_grad_sched_ok[OF s1 rest] Cons.prems(3) by simp
  have IH: "same_but_grad h1 hF
    \<and> (\<forall>v < length h1. grad (hF ! v)
          = grad (h1 ! v) + (\<Sum>w\<leftarrow>rest. contrib h1 w v * grad (hF ! w)))"
    unfolding hF_def using wf1 _ ok1 by (rule Cons.IH) (simp add: len1 rest)
  have c1: "\<And>w v. w \<in> set rest \<Longrightarrow> contrib h1 w v = contrib h w v"
    using same_but_grad_contrib[OF s1 Cons.prems(1)] rest by auto
  have sum1: "\<And>v. (\<Sum>w\<leftarrow>rest. contrib h1 w v * grad (hF ! w))
                 = (\<Sum>w\<leftarrow>rest. contrib h w v * grad (hF ! w))"
    using c1 by (auto intro!: arg_cong[where f = sum_list] map_cong)
  have gF: "\<And>v. v < length h \<Longrightarrow> grad (hF ! v)
          = grad (h1 ! v) + (\<Sum>w\<leftarrow>rest. contrib h w v * grad (hF ! w))"
    using IH sum1 len1 by simp
  have z: "\<And>w. w \<in> set rest \<Longrightarrow> contrib h w u = 0"
  proof -
    fix w assume w: "w \<in> set rest"
    then have "u \<notin> set (u_prev (h ! w))" using Cons.prems(3) by simp
    moreover have "w < length h" using w rest by auto
    ultimately show "contrib h w u = 0" using Cons.prems(1) by (intro contrib_zero)
  qed
  have "(\<Sum>w\<leftarrow>rest. contrib h w u * grad (hF ! w)) = 0"
    using z by (intro sum_list_all_zero) simp
  then have "grad (hF ! u) = grad (h1 ! u)" using gF[OF u] by simp
  also have "\<dots> = grad (h ! u)"
    using g1[OF u] contrib_self_zero[OF Cons.prems(1) u] by simp
  finally have gu: "grad (hF ! u) = grad (h ! u)" .
  have run: "run_backwards (u # rest) h = hF" by (simp add: hF_def h1_def)
  have "same_but_grad h hF" using s1 IH by (blast intro: same_but_grad_trans)
  moreover have "\<forall>v < length h. grad (hF ! v)
      = grad (h ! v) + (\<Sum>w\<leftarrow>u # rest. contrib h w v * grad (hF ! w))"
    using gF g1 gu by simp
  ultimately show ?case unfolding run by simp
qed

lemma reachable_valid:
  "wf_heap h \<Longrightarrow> r < length h \<Longrightarrow> reachable h r \<subseteq> {..<length h}"
  using reachable_le by fastforce

lemma finite_reachable: "wf_heap h \<Longrightarrow> r < length h \<Longrightarrow> finite (reachable h r)"
  using reachable_valid finite_subset by blast

lemma backward_equation:
  assumes "wf_heap h" "r < length h" "r < fuel"
  shows "\<exists>hF. backward fuel r h = Some hF \<and> same_but_grad h hF
    \<and> (\<forall>v < length h. grad (hF ! v)
          = (if v = r then 1 else grad (h ! v))
            + (\<Sum>u \<in> reachable h r. contrib h u v * grad (hF ! u)))"
proof -
  obtain topo where bt: "buildTopo fuel h r ({}, []) = Some (reachable h r, topo)"
    and inv: "topo_inv h topo" and st: "set topo = reachable h r"
    using buildTopo_root[OF assms] by blast
  define h1 where "h1 = set_grad r 1 h"
  define hF where "hF = run_backwards (rev topo) h1"
  have s1: "same_but_grad h h1" unfolding h1_def by (rule same_but_grad_set_grad)
  have len1: "length h1 = length h" using s1 by (rule same_but_grad_length)
  have wf1: "wf_heap h1" using s1 assms(1) by (rule same_but_grad_wf)
  have sub: "set (rev topo) \<subseteq> {..<length h}"
    unfolding set_rev st using assms(1,2) by (rule reachable_valid)
  have ok: "sched_ok h (rev topo)" using inv by (simp add: topo_inv_def)
  then have ok1: "sched_ok h1 (rev topo)" using same_but_grad_sched_ok[OF s1 sub] by simp
  have dist: "distinct (rev topo)" using ok by (rule sched_ok_distinct)
  have spec: "same_but_grad h1 hF
    \<and> (\<forall>v < length h1. grad (hF ! v)
          = grad (h1 ! v) + (\<Sum>u\<leftarrow>rev topo. contrib h1 u v * grad (hF ! u)))"
    unfolding hF_def using wf1 _ ok1 by (rule run_backwards_spec) (use sub in \<open>simp add: len1\<close>)
  have c1: "\<And>u v. u \<in> set (rev topo) \<Longrightarrow> contrib h1 u v = contrib h u v"
    using same_but_grad_contrib[OF s1 assms(1)] sub by auto
  have sum1: "\<And>v. (\<Sum>u\<leftarrow>rev topo. contrib h1 u v * grad (hF ! u))
       = (\<Sum>u \<in> reachable h r. contrib h u v * grad (hF ! u))"
  proof -
    fix v
    have "(\<Sum>u\<leftarrow>rev topo. contrib h1 u v * grad (hF ! u))
            = (\<Sum>u\<leftarrow>rev topo. contrib h u v * grad (hF ! u))"
      using c1 by (auto intro!: arg_cong[where f = sum_list] map_cong)
    also have "\<dots> = (\<Sum>u \<in> set (rev topo). contrib h u v * grad (hF ! u))"
      using dist by (rule sum_list_distinct_conv_sum_set)
    finally show "(\<Sum>u\<leftarrow>rev topo. contrib h1 u v * grad (hF ! u))
       = (\<Sum>u \<in> reachable h r. contrib h u v * grad (hF ! u))"
      using st by simp
  qed
  have g1: "\<And>v. v < length h \<Longrightarrow> grad (h1 ! v) = (if v = r then 1 else grad (h ! v))"
    unfolding h1_def by (simp add: nth_set_grad)
  have "backward fuel r h = Some hF"
    by (simp add: backward_def bt hF_def h1_def)
  moreover have "same_but_grad h hF" using s1 spec by (blast intro: same_but_grad_trans)
  moreover have "\<forall>v < length h. grad (hF ! v)
          = (if v = r then 1 else grad (h ! v))
            + (\<Sum>u \<in> reachable h r. contrib h u v * grad (hF ! u))"
    using spec sum1 g1 len1 by simp
  ultimately show ?thesis by blast
qed

section \<open>The operations allocate and never overwrite\<close>

lemma as_Value_frame:
  "take (length h) (snd (as_Value x h)) = h \<and> length h \<le> length (snd (as_Value x h))"
  by (cases x) (simp_all add: new_Value_def)

lemma add_frame:
  "take (length h) (snd (add this x h)) = h \<and> length h < length (snd (add this x h))"
  by (cases x) (simp_all add: add_def new_Value_def set_backward_def Let_def)

lemma mul_frame:
  "take (length h) (snd (mul this x h)) = h \<and> length h < length (snd (mul this x h))"
  by (cases x) (simp_all add: mul_def new_Value_def set_backward_def Let_def)

lemma pow_frame:
  "take (length h) (snd (pow this e h)) = h
   \<and> length h < length (snd (pow this (JNumber p) h))"
  by (cases e) (simp_all add: pow_def new_Value_def set_backward_def Let_def)

lemma relu_frame:
  "take (length h) (snd (relu this h)) = h \<and> length h < length (snd (relu this h))"
  by (simp add: relu_def new_Value_def set_backward_def Let_def)

lemma tanh_frame:
  "take (length h) (snd (tanh_op this h)) = h \<and> length h < length (snd (tanh_op this h))"
  by (simp add: tanh_op_def new_Value_def set_backward_def Let_def)

lemma exp_frame:
  "take (length h) (snd (exp_op this h)) = h \<and> length h < length (snd (exp_op this h))"
  by (simp add: exp_op_def new_Value_def set_backward_def Let_def)

lemma neg_frame:
  "take (length h) (snd (neg this h)) = h \<and> length h < length (snd (neg this h))"
  by (simp add: neg_def mul_frame)

lemma sub_frame:
  "take (length h) (snd (sub this x h)) = h \<and> length h < length (snd (sub this x h))"
  by (cases x)
     (simp_all add: sub_def neg_def add_def mul_def new_Value_def set_backward_def Let_def)

lemma div_frame:
  "take (length h) (snd (div_op this x h)) = h \<and> length h < length (snd (div_op this x h))"
  by (cases x)
     (simp_all add: div_op_def pow_def mul_def new_Value_def set_backward_def Let_def)

lemma div_op_succeeds: "\<exists>out. fst (div_op this x h) = Inr out"
  by (cases x)
     (simp_all add: div_op_def pow_def mul_def new_Value_def set_backward_def Let_def)

text \<open>
  Claim C7. Every operation (add, mul, pow, relu, tanh, exp and the derived neg, sub
  and div) leaves the objects that exist when it is applied as they are, its
  operands among them: the heap after the operation is the heap before it followed
  by at least one new object (\<open>pow\<close> with an exponent that is not a number
  allocates nothing). So no field of an operand (\<open>data\<close>, \<open>grad\<close>, \<open>_prev\<close>,
  \<open>_op\<close>, and \<open>label\<close> and \<open>_backward\<close> too) changes; the operation writes only
  to the objects it allocates.
\<close>

theorem operations_pure:
  "(take (length h) (snd (add this x h)) = h \<and> length h < length (snd (add this x h)))
   \<and> (take (length h) (snd (mul this x h)) = h \<and> length h < length (snd (mul this x h)))
   \<and> (take (length h) (snd (pow this e h)) = h
        \<and> length h < length (snd (pow this (JNumber p) h)))
   \<and> (take (length h) (snd (relu this h)) = h \<and> length h < length (snd (relu this h)))
   \<and> (take (length h) (snd (tanh_op this h)) = h \<and> length h < length (snd (tanh_op this h)))
   \<and> (take (length h) (snd (exp_op this h)) = h \<and> length h < length (snd (exp_op this h)))
   \<and> (take (length h) (snd (neg this h)) = h \<and> length h < length (snd (neg this h)))
   \<and> (take (length h) (snd (sub this x h)) = h \<and> length h < length (snd (sub this x h)))
   \<and> (take (length h) (snd (div_op this x h)) = h
        \<and> length h < length (snd (div_op this x h)))"
  by (intro conjI add_frame[THEN conjunct1] add_frame[THEN conjunct2]
      mul_frame[THEN conjunct1] mul_frame[THEN conjunct2]
      pow_frame[THEN conjunct1] pow_frame[THEN conjunct2]
      relu_frame[THEN conjunct1] relu_frame[THEN conjunct2]
      tanh_frame[THEN conjunct1] tanh_frame[THEN conjunct2]
      exp_frame[THEN conjunct1] exp_frame[THEN conjunct2]
      neg_frame[THEN conjunct1] neg_frame[THEN conjunct2]
      sub_frame[THEN conjunct1] sub_frame[THEN conjunct2]
      div_frame[THEN conjunct1] div_frame[THEN conjunct2])

text \<open>
  Claim C5. \<open>pow\<close> with an exponent that is not a number (a \<open>Value\<close>, or any other
  value) throws: the result is the error and the heap is the one \<open>pow\<close> was called
  on, so no node has been created and none has changed. The source throws a plain
  \<open>Error\<close> with the message below; the specification names it
  UnsupportedExponent. With a number \<open>p\<close> the call succeeds and returns a new node,
  allocated at the end of the heap, whose \<open>data\<close> is \<open>Math.pow(this.data, p)\<close>.
\<close>

theorem pow_exponent_check:
  "pow this (JValue a) h = (Inl (Error ''only supporting number powers for now''), h)
   \<and> pow this JOther h = (Inl (Error ''only supporting number powers for now''), h)
   \<and> (\<exists>v. pow this (JNumber p) h = (Inr (length h), h @ [v])
          \<and> data v = Math_pow (data (h ! this)) p)"
  by (simp add: pow_def new_Value_def set_backward_def Let_def)

section \<open>Graph introspection and gradient reset\<close>

lemma edges_of_reachable_unfold:
  "edges_of h (reachable h v)
     = {(c, v) | c. c \<in> set (u_prev (h ! v))}
       \<union> (\<Union>c \<in> set (u_prev (h ! v)). edges_of h (reachable h c))"
proof -
  have "reachable h v = insert v (\<Union>c \<in> set (u_prev (h ! v)). reachable h c)"
    by (rule reachable_unfold)
  then have "edges_of h (reachable h v)
      = edges_of h (insert v (\<Union>c \<in> set (u_prev (h ! v)). reachable h c))"
    by simp
  also have "\<dots> = {(c, v) | c. c \<in> set (u_prev (h ! v))}
       \<union> (\<Union>c \<in> set (u_prev (h ! v)). edges_of h (reachable h c))"
    by (auto simp: edges_of_def)
  finally show ?thesis .
qed

lemma build_spec:
  assumes wf: "wf_heap h"
  shows "v < length h \<Longrightarrow> v < n \<Longrightarrow> distinct nodes
    \<Longrightarrow> (\<forall>u \<in> set nodes. u \<le> v \<longrightarrow>
           (\<forall>c \<in> set (u_prev (h ! u)). c \<in> set nodes \<and> (c, u) \<in> set edges))
    \<Longrightarrow> \<exists>nodes' edges'. build n h v (nodes, edges) = Some (nodes', edges')
          \<and> distinct nodes' \<and> set nodes' = set nodes \<union> reachable h v
          \<and> set edges' = set edges \<union> edges_of h (reachable h v)"
proof (induction v arbitrary: n nodes edges rule: less_induct)
  case (less v)
  obtain m where n: "n = Suc m" and vm: "v \<le> m"
    using less.prems(2) by (cases n) auto
  show ?case
  proof (cases "v \<in> set nodes")
    case True
    define S where "S = {u \<in> set nodes. u \<le> v}"
    have "v \<in> S" using True by (simp add: S_def)
    moreover have "\<forall>u \<in> S. set (u_prev (h ! u)) \<subseteq> S"
    proof (intro ballI subsetI)
      fix u c assume u: "u \<in> S" and c: "c \<in> set (u_prev (h ! u))"
      have "u < length h" using u less.prems(1) by (simp add: S_def)
      then have "c < u" using wf c by (auto intro: wf_heap_prev_less)
      moreover have "c \<in> set nodes" using u c less.prems(4) by (auto simp: S_def)
      ultimately show "c \<in> S" using u by (simp add: S_def)
    qed
    ultimately have sub: "reachable h v \<subseteq> S" by (rule reachable_closed)
    then have s1: "set nodes \<union> reachable h v = set nodes" by (auto simp: S_def)
    have "edges_of h (reachable h v) \<subseteq> set edges"
      using sub less.prems(4) by (auto simp: edges_of_def S_def)
    then have s2: "set edges \<union> edges_of h (reachable h v) = set edges" by auto
    have "build n h v (nodes, edges) = Some (nodes, edges)" using True n by simp
    then show ?thesis using s1 s2 less.prems(3) by simp
  next
    case False
    let ?body = "\<lambda>child (nodes', edges'). build m h child (nodes', edges' @ [(child, v)])"
    have loop: "set cs \<subseteq> set (u_prev (h ! v)) \<Longrightarrow> distinct ns
        \<Longrightarrow> (\<forall>u \<in> set ns. u < v \<longrightarrow>
               (\<forall>c \<in> set (u_prev (h ! u)). c \<in> set ns \<and> (c, u) \<in> set es))
        \<Longrightarrow> \<exists>ns' es'. for_each ?body cs (ns, es) = Some (ns', es')
              \<and> distinct ns' \<and> set ns' = set ns \<union> (\<Union>c \<in> set cs. reachable h c)
              \<and> set es' = set es \<union> {(c, v) | c. c \<in> set cs}
                            \<union> (\<Union>c \<in> set cs. edges_of h (reachable h c))"
      for cs ns es
    proof (induction cs arbitrary: ns es)
      case Nil
      then show ?case by simp
    next
      case (Cons c cs)
      have cv: "c < v"
        using Cons.prems(1) wf less.prems(1) by (auto intro: wf_heap_prev_less)
      have pre: "\<forall>u \<in> set ns. u \<le> c \<longrightarrow>
              (\<forall>c' \<in> set (u_prev (h ! u)). c' \<in> set ns \<and> (c', u) \<in> set (es @ [(c, v)]))"
        using Cons.prems(3) cv by auto
      have c_len: "c < length h" and c_m: "c < m" using cv vm less.prems(1) by simp_all
      from less.IH[OF cv c_len c_m Cons.prems(2) pre]
      obtain ns1 es1 where
        r1: "build m h c (ns, es @ [(c, v)]) = Some (ns1, es1)"
        and d1: "distinct ns1" and n1: "set ns1 = set ns \<union> reachable h c"
        and e1: "set es1 = set (es @ [(c, v)]) \<union> edges_of h (reachable h c)"
        by blast
      have cl: "\<forall>u \<in> set ns1. u < v \<longrightarrow>
              (\<forall>c' \<in> set (u_prev (h ! u)). c' \<in> set ns1 \<and> (c', u) \<in> set es1)"
      proof (intro ballI impI)
        fix u c' assume u: "u \<in> set ns1" "u < v" and c': "c' \<in> set (u_prev (h ! u))"
        show "c' \<in> set ns1 \<and> (c', u) \<in> set es1"
        proof (cases "u \<in> set ns")
          case True
          then show ?thesis using Cons.prems(3) u(2) c' n1 e1 by auto
        next
          case False
          then have ur: "u \<in> reachable h c" using u(1) n1 by auto
          then have "reachable h u \<subseteq> reachable h c"
            by (auto simp: reachable_def)
          moreover have "c' \<in> reachable h u" using c' reachable_self reachable_step by blast
          ultimately show ?thesis using ur c' n1 e1 by (auto simp: edges_of_def)
        qed
      qed
      have "set cs \<subseteq> set (u_prev (h ! v))" using Cons.prems(1) by simp
      from Cons.IH[OF this d1 cl] obtain ns2 es2 where
        r2: "for_each ?body cs (ns1, es1) = Some (ns2, es2)"
        and d2: "distinct ns2"
        and n2: "set ns2 = set ns1 \<union> (\<Union>c \<in> set cs. reachable h c)"
        and e2: "set es2 = set es1 \<union> {(c, v) | c. c \<in> set cs}
                            \<union> (\<Union>c \<in> set cs. edges_of h (reachable h c))"
        by (elim exE conjE) (rule that; assumption)
      have "for_each ?body (c # cs) (ns, es) = Some (ns2, es2)" using r1 r2 by simp
      moreover have "set ns2 = set ns \<union> (\<Union>c \<in> set (c # cs). reachable h c)"
        using n1 n2 by auto
      moreover have "set es2 = set es \<union> {(c', v) | c'. c' \<in> set (c # cs)}
                            \<union> (\<Union>c \<in> set (c # cs). edges_of h (reachable h c))"
        using e1 e2 by auto
      ultimately show ?case using d2 by blast
    qed
    have dd: "distinct (nodes @ [v])" using False less.prems(3) by simp
    have cc: "\<forall>u \<in> set (nodes @ [v]). u < v \<longrightarrow>
               (\<forall>c \<in> set (u_prev (h ! u)). c \<in> set (nodes @ [v]) \<and> (c, u) \<in> set edges)"
      using less.prems(4) by auto
    from loop[OF subset_refl dd cc] obtain ns' es' where
      r: "for_each ?body (u_prev (h ! v)) (nodes @ [v], edges) = Some (ns', es')"
      and d: "distinct ns'"
      and ns: "set ns' = set (nodes @ [v]) \<union> (\<Union>c \<in> set (u_prev (h ! v)). reachable h c)"
      and es: "set es' = set edges \<union> {(c, v) | c. c \<in> set (u_prev (h ! v))}
                            \<union> (\<Union>c \<in> set (u_prev (h ! v)). edges_of h (reachable h c))"
      by (elim exE conjE) (rule that; assumption)
    have "build n h v (nodes, edges) = Some (ns', es')" using False n r by simp
    moreover have "set ns' = set nodes \<union> reachable h v"
      using ns reachable_unfold[of h v] by auto
    moreover have "set es' = set edges \<union> edges_of h (reachable h v)"
      using es edges_of_reachable_unfold[of h v] by auto
    ultimately show ?thesis using d by blast
  qed
qed

lemma forEach_zero_spec:
  "set ns \<subseteq> {..<length h} \<Longrightarrow>
   length (forEach_zero ns h) = length h
   \<and> (\<forall>v < length h. forEach_zero ns h ! v
        = (if v \<in> set ns then (h ! v)\<lparr>grad := 0\<rparr> else h ! v))"
proof (induction ns arbitrary: h)
  case Nil
  then show ?case by simp
next
  case (Cons u ns)
  have "set ns \<subseteq> {..<length (set_grad u 0 h)}" using Cons.prems by (simp add: length_set_grad)
  from Cons.IH[OF this] show ?case
    by (auto simp: length_set_grad nth_set_grad)
qed

section \<open>The operations build well-formed heaps\<close>

lemma set_new_Set: "set (new_Set xs) = set xs"
  by (induction xs) auto

lemma distinct_new_Set: "distinct (new_Set xs)"
  by (induction xs) (auto simp: set_new_Set)

lemma wf_heap_Nil: "wf_heap []"
  by (simp add: wf_heap_def)

lemma wf_heap_snoc:
  assumes "wf_heap h" "\<forall>c \<in> set (u_prev x). c < length h" "distinct (u_prev x)"
    "closure_ok (length h) (u_prev x) (u_backward x)"
  shows "wf_heap (h @ [x])"
  unfolding wf_heap_def
proof (intro allI impI)
  fix v assume "v < length (h @ [x])"
  then consider "v < length h" | "v = length h" by fastforce
  then show "node_ok (h @ [x]) v"
  proof cases
    case 1
    then have "node_ok h v" using assms(1) by (simp add: wf_heap_def)
    then show ?thesis using 1 by (simp add: node_ok_def nth_append)
  next
    case 2
    then show ?thesis using assms(2,3,4) by (simp add: node_ok_def)
  qed
qed

lemma createValue_eq:
  "createValue d l h = (length h, h @ [\<lparr>data = d, grad = 0, u_backward = Noop, u_prev = [],
      u_op = OpNone, label = l\<rparr>])"
  by (simp add: createValue_def new_Value_def)

lemma add_Val_eq:
  "add a (Val b) h = (length h, h @ [\<lparr>data = data (h ! a) + data (h ! b), grad = 0,
      u_backward = AddBw a b (length h), u_prev = new_Set [a, b], u_op = OpAdd, label = []\<rparr>])"
  by (simp add: add_def new_Value_def set_backward_def)

lemma mul_Val_eq:
  "mul a (Val b) h = (length h, h @ [\<lparr>data = data (h ! a) * data (h ! b), grad = 0,
      u_backward = MulBw a b (length h), u_prev = new_Set [a, b], u_op = OpMul, label = []\<rparr>])"
  by (simp add: mul_def new_Value_def set_backward_def)

lemma wf_heap_createValue: "wf_heap h \<Longrightarrow> wf_heap (snd (createValue d l h))"
  unfolding createValue_eq snd_conv by (rule wf_heap_snoc) simp_all

lemma wf_heap_add:
  "wf_heap h \<Longrightarrow> a < length h \<Longrightarrow> b < length h \<Longrightarrow> wf_heap (snd (add a (Val b) h))"
  unfolding add_Val_eq snd_conv
  by (rule wf_heap_snoc) (auto simp: set_new_Set distinct_new_Set simp del: new_Set.simps)

lemma wf_heap_mul:
  "wf_heap h \<Longrightarrow> a < length h \<Longrightarrow> b < length h \<Longrightarrow> wf_heap (snd (mul a (Val b) h))"
  unfolding mul_Val_eq snd_conv
  by (rule wf_heap_snoc) (auto simp: set_new_Set distinct_new_Set simp del: new_Set.simps)

lemma same_but_grad_set_label_wf:
  assumes "wf_heap h"
  shows "wf_heap (set_label v l h)"
  unfolding wf_heap_def
proof (intro allI impI)
  fix w assume "w < length (set_label v l h)"
  then have w: "w < length h" by (simp add: set_label_def)
  then have "node_ok h w" using assms by (simp add: wf_heap_def)
  then show "node_ok (set_label v l h) w"
    using w by (cases "w = v") (simp_all add: node_ok_def set_label_def)
qed

lemma Examples_basic_addition_eq:
  "Examples_basic_addition [] = ((0, 1, 2),
     [\<lparr>data = 2, grad = 0, u_backward = Noop, u_prev = [], u_op = OpNone, label = ''a''\<rparr>,
      \<lparr>data = - 3, grad = 0, u_backward = Noop, u_prev = [], u_op = OpNone, label = ''b''\<rparr>,
      \<lparr>data = - 1, grad = 0, u_backward = AddBw 0 1 2, u_prev = [0, 1], u_op = OpAdd,
        label = ''c''\<rparr>])"
  by (simp add: Examples_basic_addition_def createValue_eq add_Val_eq set_label_def)

lemma all_less_Suc_split: "(\<forall>i < Suc n. P i) \<longleftrightarrow> (P 0 \<and> (\<forall>i < n. P (Suc i)))"
  by (auto simp: less_Suc_eq_0_disj)

lemma wf_from_iff:
  "wf_from k xs \<longleftrightarrow>
     (\<forall>i < length xs. (\<forall>c \<in> set (u_prev (xs ! i)). c < k + i) \<and> distinct (u_prev (xs ! i))
        \<and> closure_ok (k + i) (u_prev (xs ! i)) (u_backward (xs ! i)))"
proof (induction xs arbitrary: k)
  case Nil
  then show ?case by simp
next
  case (Cons x xs)
  show ?case
    unfolding wf_from.simps Cons.IH length_Cons all_less_Suc_split
    by simp
qed

lemma wf_heap_code: "wf_heap h = wf_from 0 h"
  by (simp add: wf_heap_def node_ok_def wf_from_iff)

lemma wf_heap_Examples_basic_addition: "wf_heap (snd (Examples_basic_addition []))"
  by (simp add: Examples_basic_addition_eq wf_heap_code)

section \<open>Claims about the traversals\<close>

text \<open>
  Claim C8. On a well-formed heap (a finite acyclic operand graph, shared operands
  allowed), \<open>getNodes\<close> called on a node \<open>r\<close> returns: a recursion depth above the
  address of \<open>r\<close> is enough, and the result is not \<open>None\<close>. The array \<open>nodes\<close> holds, once
  each, exactly the nodes reachable from \<open>r\<close>, and \<open>edges\<close> holds exactly the pairs
  (operand, consumer) whose consumer is reachable from \<open>r\<close>. \<open>getNodes\<close> reads the
  heap and writes its two local Sets only, which is why the model returns no heap:
  no field of any node changes.
\<close>

theorem getNodes_reachable:
  assumes "wf_heap h" "r < length h" "r < fuel"
  shows "\<exists>nodes edges. getNodes fuel r h = Some (nodes, edges) \<and> distinct nodes
           \<and> set nodes = reachable h r \<and> set edges = edges_of h (reachable h r)"
  using build_spec[OF assms, of "[]" "[]"] by (simp add: getNodes_def)

theorem getNodes_reachable_witness:
  "wf_heap (snd (Examples_basic_addition []))
   \<and> (2::nat) < length (snd (Examples_basic_addition [])) \<and> (2::nat) < 3
   \<and> getNodes 3 2 (snd (Examples_basic_addition [])) = Some ([2, 0, 1], [(0, 2), (1, 2)])
   \<and> reachable (snd (Examples_basic_addition [])) 2 = {0, 1, 2}
   \<and> edges_of (snd (Examples_basic_addition [])) (reachable (snd (Examples_basic_addition [])) 2)
       = {(0, 2), (1, 2)}"
proof -
  let ?h = "snd (Examples_basic_addition [])"
  have w: "wf_heap ?h" by (rule wf_heap_Examples_basic_addition)
  have l: "(2::nat) < length ?h" by (simp add: Examples_basic_addition_eq)
  have f: "(2::nat) < 3" by simp
  have e: "getNodes 3 2 ?h = Some ([2, 0, 1], [(0, 2), (1, 2)])"
    by (simp add: Examples_basic_addition_eq getNodes_def eval_nat_numeral)
  from getNodes_reachable[OF w l f] e
  have "set [2, 0, 1::nat] = reachable ?h 2"
    and "set [(0, 2), (1::nat, 2::nat)] = edges_of ?h (reachable ?h 2)"
    by auto
  then have "reachable ?h 2 = {0, 1, 2}" and "edges_of ?h (reachable ?h 2) = {(0, 2), (1, 2)}"
    by auto
  with w l f e show ?thesis by blast
qed

text \<open>
  Claim C9. On a well-formed heap, \<open>zeroGrad\<close> called on a node \<open>r\<close> returns, and
  afterwards every node reachable from \<open>r\<close> through operand links (\<open>r\<close> itself
  included) is what it was with \<open>grad\<close> set to 0: its \<open>data\<close>, \<open>_prev\<close> and \<open>_op\<close> (and
  \<open>label\<close> and \<open>_backward\<close>) are unchanged. Nodes that are not reachable from \<open>r\<close>
  are untouched.
\<close>

theorem zeroGrad_reachable:
  assumes "wf_heap h" "r < length h" "r < fuel"
  shows "\<exists>h'. zeroGrad fuel r h = Some h' \<and> length h' = length h
           \<and> (\<forall>v < length h. h' ! v
                 = (if v \<in> reachable h r then (h ! v)\<lparr>grad := 0\<rparr> else h ! v))"
proof -
  from build_spec[OF assms, of "[]" "[]"]
  obtain nodes edges where g: "getNodes fuel r h = Some (nodes, edges)"
    and n: "set nodes = reachable h r"
    by (auto simp: getNodes_def)
  have "set nodes \<subseteq> {..<length h}" using n reachable_valid[OF assms(1,2)] by simp
  from forEach_zero_spec[OF this] n
  have "length (forEach_zero nodes h) = length h
        \<and> (\<forall>v < length h. forEach_zero nodes h ! v
              = (if v \<in> reachable h r then (h ! v)\<lparr>grad := 0\<rparr> else h ! v))"
    by simp
  moreover have "zeroGrad fuel r h = Some (forEach_zero nodes h)"
    using g by (simp add: zeroGrad_def)
  ultimately show ?thesis by blast
qed

theorem zeroGrad_reachable_witness:
  "wf_heap (set_grad 0 5 (set_grad 2 1 (snd (Examples_basic_addition []))))
   \<and> (2::nat) < length (set_grad 0 5 (set_grad 2 1 (snd (Examples_basic_addition []))))
   \<and> (2::nat) < 3
   \<and> zeroGrad 3 2 (set_grad 0 5 (set_grad 2 1 (snd (Examples_basic_addition []))))
       = Some (snd (Examples_basic_addition []))"
proof -
  let ?h = "set_grad 0 5 (set_grad 2 1 (snd (Examples_basic_addition [])))"
  have w: "wf_heap ?h"
    by (simp add: Examples_basic_addition_eq wf_heap_code set_grad_def)
  have l: "(2::nat) < length ?h" by (simp add: Examples_basic_addition_eq set_grad_def)
  have f: "(2::nat) < 3" by simp
  have e: "zeroGrad 3 2 ?h = Some (snd (Examples_basic_addition []))"
    by (simp add: Examples_basic_addition_eq zeroGrad_def getNodes_def set_grad_def
        eval_nat_numeral)
  from zeroGrad_reachable[OF w l f] w l f e show ?thesis by blast
qed

text \<open>
  Claim C2, as stated: the array \<open>topo\<close> that \<open>buildTopo\<close> computes has every node
  after all nodes that depend on it. It fails for \<open>c = a.add(b)\<close>
  (\<open>Examples.basic.addition\<close>): \<open>topo\<close> is \<open>[a, b, c]\<close>, and \<open>a\<close> stands before
  \<open>c\<close>, which depends on it.
\<close>

theorem buildTopo_not_after_dependents:
  "buildTopo 3 (snd (Examples_basic_addition [])) 2 ({}, []) = Some ({0, 1, 2}, [0, 1, 2])
   \<and> \<not> after_dependents (snd (Examples_basic_addition [])) [0, 1, 2]"
proof
  show "buildTopo 3 (snd (Examples_basic_addition [])) 2 ({}, []) = Some ({0, 1, 2}, [0, 1, 2])"
    by (simp add: Examples_basic_addition_eq eval_nat_numeral insert_commute)
  show "\<not> after_dependents (snd (Examples_basic_addition [])) [0, 1, 2]"
  proof
    assume a: "after_dependents (snd (Examples_basic_addition [])) [0, 1, 2]"
    have "(0, 2) \<in> operand_rel (snd (Examples_basic_addition []))"
      by (simp add: operand_rel_def Examples_basic_addition_eq)
    then have "([0, 1, 2::nat] ! 0, [0, 1, 2::nat] ! 2)
                 \<in> (operand_rel (snd (Examples_basic_addition [])))\<^sup>+"
      by auto
    moreover have "(0::nat) < length [0, 1, 2::nat]" "(2::nat) < length [0, 1, 2::nat]"
      by simp_all
    ultimately have "(2::nat) < 0"
      using a unfolding after_dependents_def by blast
    then show False by simp
  qed
qed

text \<open>
  Claim C2, amended. On a well-formed heap \<open>buildTopo\<close> returns, and the array
  \<open>topo\<close> holds, once each, exactly the nodes reachable from the root, every node
  after all nodes it depends on transitively (its operands first, the root last).
  \<open>backward\<close> then seeds the root and calls the \<open>_backward\<close> functions along
  \<open>topo\<close> in reverse, so that each node is called after all nodes that depend on
  it.
\<close>

theorem buildTopo_after_operands:
  assumes "wf_heap h" "r < length h" "r < fuel"
  shows "\<exists>topo. buildTopo fuel h r ({}, []) = Some (reachable h r, topo)
           \<and> distinct topo \<and> set topo = reachable h r \<and> after_operands h topo
           \<and> backward fuel r h = Some (run_backwards (rev topo) (set_grad r 1 h))"
proof -
  obtain topo where bt: "buildTopo fuel h r ({}, []) = Some (reachable h r, topo)"
    and inv: "topo_inv h topo" and st: "set topo = reachable h r"
    using buildTopo_root[OF assms] by blast
  have "distinct topo"
    using inv sched_ok_distinct[of h "rev topo"] by (simp add: topo_inv_def)
  moreover have "after_operands h topo"
    using assms(1) inv
  proof (rule topo_inv_after_operands)
    show "set topo \<subseteq> {..<length h}" unfolding st using assms(1,2) by (rule reachable_valid)
  qed
  moreover have "backward fuel r h = Some (run_backwards (rev topo) (set_grad r 1 h))"
    by (simp add: backward_def bt)
  ultimately show ?thesis using bt st by blast
qed

theorem buildTopo_after_operands_witness:
  "wf_heap (snd (Examples_basic_addition []))
   \<and> (2::nat) < length (snd (Examples_basic_addition [])) \<and> (2::nat) < 3
   \<and> buildTopo 3 (snd (Examples_basic_addition [])) 2 ({}, []) = Some ({0, 1, 2}, [0, 1, 2])
   \<and> after_operands (snd (Examples_basic_addition [])) [0, 1, 2]"
proof -
  let ?h = "snd (Examples_basic_addition [])"
  have w: "wf_heap ?h" by (rule wf_heap_Examples_basic_addition)
  have l: "(2::nat) < length ?h" by (simp add: Examples_basic_addition_eq)
  have f: "(2::nat) < 3" by simp
  have e: "buildTopo 3 ?h 2 ({}, []) = Some ({0, 1, 2}, [0, 1, 2])"
    by (simp add: Examples_basic_addition_eq eval_nat_numeral insert_commute)
  from buildTopo_after_operands[OF w l f] e
  have "after_operands ?h [0, 1, 2]" by auto
  with w l f e show ?thesis by blast
qed

section \<open>The example expression\<close>

lemma backward_mono:
  assumes "backward n r h = Some h'"
  shows "backward (n + k) r h = Some h'"
proof -
  from assms obtain vis topo where b: "buildTopo n h r ({}, []) = Some (vis, topo)"
    and h': "h' = run_backwards (rev topo) (set_grad r 1 h)"
    by (auto simp: backward_def split: option.splits)
  from b have "buildTopo (n + k) h r ({}, []) = Some (vis, topo)" by (rule buildTopo_mono)
  then show ?thesis using h' by (simp add: backward_def)
qed

lemma Examples_complex_eq:
  "Examples_complex [] = ((0, 1, 2, 4, 5, 3, 6),
     [\<lparr>data = 2, grad = 0, u_backward = Noop, u_prev = [], u_op = OpNone, label = ''a''\<rparr>,
      \<lparr>data = - 3, grad = 0, u_backward = Noop, u_prev = [], u_op = OpNone, label = ''b''\<rparr>,
      \<lparr>data = 10, grad = 0, u_backward = Noop, u_prev = [], u_op = OpNone, label = ''c''\<rparr>,
      \<lparr>data = - 2, grad = 0, u_backward = Noop, u_prev = [], u_op = OpNone, label = ''f''\<rparr>,
      \<lparr>data = - 6, grad = 0, u_backward = MulBw 0 1 4, u_prev = [0, 1], u_op = OpMul,
        label = ''e''\<rparr>,
      \<lparr>data = 4, grad = 0, u_backward = AddBw 4 2 5, u_prev = [4, 2], u_op = OpAdd,
        label = ''d''\<rparr>,
      \<lparr>data = - 8, grad = 0, u_backward = MulBw 5 3 6, u_prev = [5, 3], u_op = OpMul,
        label = ''L''\<rparr>])"
  by (simp add: Examples_complex_def createValue_eq add_Val_eq mul_Val_eq set_label_def
      nth_append)

lemma Examples_complex_backward:
  "map_option (map grad) (backward 7 6 (snd (Examples_complex [])))
     = Some [6, - 4, - 2, 4, - 2, - 2, 1]"
  by (simp add: Examples_complex_eq backward_def eval_nat_numeral insert_commute
      set_grad_def add_grad_def)

lemma Examples_complex_general:
  "Examples_complex h0 =
     ((length h0, length h0 + 1, length h0 + 2, length h0 + 4, length h0 + 5, length h0 + 3,
       length h0 + 6),
      h0 @
      [\<lparr>data = 2, grad = 0, u_backward = Noop, u_prev = [], u_op = OpNone, label = ''a''\<rparr>,
       \<lparr>data = - 3, grad = 0, u_backward = Noop, u_prev = [], u_op = OpNone, label = ''b''\<rparr>,
       \<lparr>data = 10, grad = 0, u_backward = Noop, u_prev = [], u_op = OpNone, label = ''c''\<rparr>,
       \<lparr>data = - 2, grad = 0, u_backward = Noop, u_prev = [], u_op = OpNone, label = ''f''\<rparr>,
       \<lparr>data = - 6, grad = 0,
         u_backward = MulBw (length h0) (length h0 + 1) (length h0 + 4),
         u_prev = [length h0, length h0 + 1], u_op = OpMul, label = ''e''\<rparr>,
       \<lparr>data = 4, grad = 0,
         u_backward = AddBw (length h0 + 4) (length h0 + 2) (length h0 + 5),
         u_prev = [length h0 + 4, length h0 + 2], u_op = OpAdd, label = ''d''\<rparr>,
       \<lparr>data = - 8, grad = 0,
         u_backward = MulBw (length h0 + 5) (length h0 + 3) (length h0 + 6),
         u_prev = [length h0 + 5, length h0 + 3], u_op = OpMul, label = ''L''\<rparr>])"
  by (simp add: Examples_complex_def createValue_eq add_Val_eq mul_Val_eq set_label_def
      nth_append list_update_append)

lemma Examples_complex_backward_general:
  "map_option (\<lambda>h. map grad (drop (length h0) h))
     (backward 7 (length h0 + 6) (snd (Examples_complex h0)))
     = Some [6, - 4, - 2, 4, - 2, - 2, 1]"
  by (simp add: Examples_complex_general backward_def eval_nat_numeral insert_commute
      set_grad_def add_grad_def nth_append list_update_append)

text \<open>
  Claim C1. \<open>Examples.complex\<close>, run on any heap, allocates the leaves \<open>a = 2.0\<close>,
  \<open>b = -3.0\<close>, \<open>c = 10.0\<close>, \<open>f = -2.0\<close> and builds \<open>L = (a*b + c)*f\<close> with \<open>mul\<close> and
  \<open>add\<close>. Then \<open>L.data\<close> is \<open>-8\<close>, and \<open>L.backward()\<close> returns (a recursion depth
  of 7 is enough, and so is any greater one) and leaves \<open>f.grad = 4\<close>, \<open>a.grad = 6\<close>,
  \<open>b.grad = -4\<close> and \<open>c.grad = -2\<close>.
\<close>

theorem Examples_complex_gradients:
  "case Examples_complex h0 of ((a, b, c, e, d, f, L), h) \<Rightarrow>
     data (h ! L) = - 8
     \<and> (\<exists>h'. backward (7 + k) L h = Some h'
           \<and> grad (h' ! f) = 4 \<and> grad (h' ! a) = 6 \<and> grad (h' ! b) = - 4 \<and> grad (h' ! c) = - 2)"
proof -
  let ?h = "snd (Examples_complex h0)"
  from Examples_complex_backward_general[of h0]
  obtain h' where b: "backward 7 (length h0 + 6) ?h = Some h'"
    and g: "map grad (drop (length h0) h') = [6, - 4, - 2, 4, - 2, - 2, 1]"
    by auto
  have len: "length h' = length h0 + 7" using arg_cong[OF g, of length] by simp
  have nth: "grad (h' ! (length h0 + i)) = [6, - 4, - 2, 4, - 2, - 2, 1] ! i" if "i < 7" for i
  proof -
    have "grad (h' ! (length h0 + i)) = map grad (drop (length h0) h') ! i"
      using that len by simp
    then show ?thesis using g by simp
  qed
  have "grad (h' ! (length h0 + 3)) = 4" using nth[of 3] by simp
  moreover have "grad (h' ! (length h0 + 0)) = 6" using nth[of 0] by simp
  moreover have "grad (h' ! (length h0 + 1)) = - 4" using nth[of 1] by simp
  moreover have "grad (h' ! (length h0 + 2)) = - 2" using nth[of 2] by simp
  moreover have "backward (7 + k) (length h0 + 6) ?h = Some h'" using b by (rule backward_mono)
  moreover have "data (?h ! (length h0 + 6)) = - 8" by (simp add: Examples_complex_general)
  ultimately show ?thesis by (simp add: Examples_complex_general)
qed

section \<open>Gradients after a backward pass\<close>

lemma reachable_cong:
  assumes "wf_heap h" "r < length h"
    and "\<And>u. u < length h \<Longrightarrow> u_prev (h' ! u) = u_prev (h ! u)"
  shows "reachable h' r = reachable h r"
proof
  show "reachable h' r \<subseteq> reachable h r"
  proof (rule reachable_closed)
    show "r \<in> reachable h r" by (rule reachable_self)
    show "\<forall>u \<in> reachable h r. set (u_prev (h' ! u)) \<subseteq> reachable h r"
    proof (intro ballI subsetI)
      fix u c assume u: "u \<in> reachable h r" and c: "c \<in> set (u_prev (h' ! u))"
      have "u < length h" using reachable_valid[OF assms(1,2)] u by auto
      then have "c \<in> set (u_prev (h ! u))" using c assms(3) by simp
      moreover have "reachable h u \<subseteq> reachable h r" using u by (auto simp: reachable_def)
      ultimately show "c \<in> reachable h r" using reachable_step reachable_self by blast
    qed
  qed
  show "reachable h r \<subseteq> reachable h' r"
  proof (rule reachable_closed)
    show "r \<in> reachable h' r" by (rule reachable_self)
    show "\<forall>u \<in> reachable h' r. set (u_prev (h ! u)) \<subseteq> reachable h' r"
    proof (intro ballI subsetI)
      fix u c assume u: "u \<in> reachable h' r" and c: "c \<in> set (u_prev (h ! u))"
      have "reachable h' r \<subseteq> reachable h r" by fact
      then have "u < length h" using reachable_valid[OF assms(1,2)] u by auto
      then have "c \<in> set (u_prev (h' ! u))" using c assms(3) by simp
      moreover have "reachable h' u \<subseteq> reachable h' r" using u by (auto simp: reachable_def)
      ultimately show "c \<in> reachable h' r" using reachable_step reachable_self by blast
    qed
  qed
qed

lemma reachable_same_but_grad:
  assumes "same_but_grad h h'" "wf_heap h" "r < length h"
  shows "reachable h' r = reachable h r"
  using assms(2,3) same_but_grad_fields(2)[OF assms(1)] by (rule reachable_cong)

lemma reachable_append:
  assumes "wf_heap h" "r < length h"
  shows "reachable (h @ xs) r = reachable h r"
  using assms by (rule reachable_cong) (simp add: nth_append)

lemma not_operand_of_reachable:
  assumes "wf_heap h" "r < length h" "u \<in> reachable h r"
  shows "r \<notin> set (u_prev (h ! u))"
proof
  assume "r \<in> set (u_prev (h ! u))"
  moreover have "u \<le> r" using assms by (rule reachable_le)
  moreover from this have "u < length h" using assms(2) by simp
  ultimately show False using wf_heap_prev_less[OF assms(1), of u r] by simp
qed

lemma sum_one_term:
  assumes "finite S" "a \<in> S" "\<And>u. u \<in> S \<Longrightarrow> u \<noteq> a \<Longrightarrow> f u = (0::real)"
  shows "sum f S = f a"
proof -
  have "sum f S = f a + sum f (S - {a})" using assms(1,2) by (rule sum.remove)
  moreover have "sum f (S - {a}) = 0" using assms(3) by (intro sum.neutral) auto
  ultimately show ?thesis by simp
qed

lemma sum_two_terms:
  assumes "finite S" "a \<in> S" "b \<in> S" "a \<noteq> b"
    "\<And>u. u \<in> S \<Longrightarrow> u \<noteq> a \<Longrightarrow> u \<noteq> b \<Longrightarrow> f u = (0::real)"
  shows "sum f S = f a + f b"
proof -
  have "sum f S = f a + sum f (S - {a})" using assms(1,2) by (rule sum.remove)
  moreover have "sum f (S - {a}) = f b"
    using assms by (intro sum_one_term) auto
  ultimately show ?thesis by simp
qed

lemma sum_no_term:
  assumes "\<And>u. u \<in> S \<Longrightarrow> f u = (0::real)"
  shows "sum f S = 0"
  using assms by (intro sum.neutral) auto

text \<open>
  After \<open>backward\<close> the root has gradient 1, and a node whose only consumer among the
  reachable nodes is the root has gained the root's local derivative.
\<close>

lemma backward_root_grad:
  assumes "wf_heap h" "r < length h" "r < fuel"
  shows "\<exists>hF. backward fuel r h = Some hF \<and> same_but_grad h hF \<and> grad (hF ! r) = 1"
proof -
  from backward_equation[OF assms] obtain hF where b: "backward fuel r h = Some hF"
    and s: "same_but_grad h hF"
    and g: "\<forall>v < length h. grad (hF ! v)
          = (if v = r then 1 else grad (h ! v))
            + (\<Sum>u \<in> reachable h r. contrib h u v * grad (hF ! u))"
    by (elim exE conjE)
  have "(\<Sum>u \<in> reachable h r. contrib h u r * grad (hF ! u)) = 0"
  proof (rule sum_no_term)
    fix u assume u: "u \<in> reachable h r"
    have "u < length h" using reachable_valid[OF assms(1,2)] u by auto
    moreover have "r \<notin> set (u_prev (h ! u))" using assms(1,2) u by (rule not_operand_of_reachable)
    ultimately have "contrib h u r = 0" using assms(1) by (intro contrib_zero)
    then show "contrib h u r * grad (hF ! u) = 0" by simp
  qed
  then have "grad (hF ! r) = 1" using g assms(2) by simp
  then show ?thesis using b s by blast
qed

lemma backward_only_root_consumer:
  assumes "wf_heap h" "r < length h" "r < fuel" "v < length h" "v \<noteq> r"
    and "\<And>u. u \<in> reachable h r \<Longrightarrow> v \<in> set (u_prev (h ! u)) \<Longrightarrow> u = r"
    and "backward fuel r h = Some hF"
  shows "grad (hF ! v) = grad (h ! v) + contrib h r v"
proof -
  from backward_equation[OF assms(1,2,3)] assms(7)
  have g: "\<forall>v < length h. grad (hF ! v)
          = (if v = r then 1 else grad (h ! v))
            + (\<Sum>u \<in> reachable h r. contrib h u v * grad (hF ! u))"
    by auto
  from backward_root_grad[OF assms(1,2,3)] assms(7) have one: "grad (hF ! r) = 1" by auto
  have "(\<Sum>u \<in> reachable h r. contrib h u v * grad (hF ! u)) = contrib h r v * grad (hF ! r)"
  proof (rule sum_one_term)
    show "finite (reachable h r)" using assms(1,2) by (rule finite_reachable)
    show "r \<in> reachable h r" by (rule reachable_self)
    fix u assume u: "u \<in> reachable h r" "u \<noteq> r"
    have "u < length h" using reachable_valid[OF assms(1,2)] u by auto
    moreover have "v \<notin> set (u_prev (h ! u))" using assms(6) u by blast
    ultimately have "contrib h u v = 0" using assms(1) by (intro contrib_zero)
    then show "contrib h u v * grad (hF ! u) = 0" by simp
  qed
  then show ?thesis using g assms(4,5) one by simp
qed

lemma Examples_complex_backward_twice:
  "map_option (map grad) (backward_twice 7 6 (snd (Examples_complex [])))
     = Some [24, - 16, - 6, 8, - 6, - 4, 1]"
  by (simp add: Examples_complex_eq backward_twice_def backward_def eval_nat_numeral
      insert_commute set_grad_def add_grad_def)

text \<open>
  Claim C3, as stated: two calls of \<open>backward\<close> with no zeroing in between leave
  every reachable node with twice the gradient of one call. It fails on
  \<open>Examples.complex\<close>: after one call the gradients of \<open>a, b, c, f, e, d, L\<close> are
  \<open>6, -4, -2, 4, -2, -2, 1\<close>, after two they are \<open>24, -16, -6, 8, -6, -4, 1\<close>. The
  root \<open>L\<close> is seeded with 1 again, and only \<open>f\<close> has doubled.
\<close>

theorem backward_twice_not_doubled:
  "map_option (map grad) (backward 7 6 (snd (Examples_complex [])))
     = Some [6, - 4, - 2, 4, - 2, - 2, 1]
   \<and> map_option (map grad) (backward_twice 7 6 (snd (Examples_complex [])))
     = Some [24, - 16, - 6, 8, - 6, - 4, 1]
   \<and> \<not> grads_doubled (the (backward 7 6 (snd (Examples_complex []))))
         (the (backward_twice 7 6 (snd (Examples_complex []))))
         (reachable (snd (Examples_complex [])) 6)"
proof (intro conjI)
  let ?h = "snd (Examples_complex [])"
  show "map_option (map grad) (backward 7 6 ?h) = Some [6, - 4, - 2, 4, - 2, - 2, 1]"
    by (rule Examples_complex_backward)
  show "map_option (map grad) (backward_twice 7 6 ?h) = Some [24, - 16, - 6, 8, - 6, - 4, 1]"
    by (rule Examples_complex_backward_twice)
  show "\<not> grads_doubled (the (backward 7 6 ?h)) (the (backward_twice 7 6 ?h)) (reachable ?h 6)"
  proof
    assume d: "grads_doubled (the (backward 7 6 ?h)) (the (backward_twice 7 6 ?h)) (reachable ?h 6)"
    from Examples_complex_backward obtain h1 where b1: "backward 7 6 ?h = Some h1"
      and g1: "map grad h1 = [6, - 4, - 2, 4, - 2, - 2, 1]"
      by auto
    from Examples_complex_backward_twice obtain h2 where b2: "backward_twice 7 6 ?h = Some h2"
      and g2: "map grad h2 = [24, - 16, - 6, 8, - 6, - 4, 1]"
      by auto
    have "length h1 = 7" "length h2 = 7"
      using arg_cong[OF g1, of length] arg_cong[OF g2, of length] by simp_all
    then have "grad (h1 ! 6) = 1" "grad (h2 ! 6) = 1"
      using arg_cong[OF g1, of "\<lambda>xs. xs ! 6"] arg_cong[OF g2, of "\<lambda>xs. xs ! 6"] by simp_all
    moreover have "grad (h2 ! 6) = 2 * grad (h1 ! 6)"
      using d b1 b2 reachable_self[of 6 ?h] by (simp add: grads_doubled_def)
    ultimately show False by simp
  qed
qed

text \<open>
  Claim C3, amended. On a well-formed heap two calls of \<open>backward\<close> on the root,
  with no zeroing in between, both return. The root's gradient is 1 after the
  first and after the second. Every other reachable node ends with the gradient it
  had after the first call plus what its consumers add in the second, each
  consumer's local derivative times that consumer's gradient after the second
  call. So a node whose gradient was 0 before the first call and whose only
  reachable consumer is the root ends with twice its gradient after one call.
\<close>

theorem backward_twice_accumulates:
  assumes "wf_heap h" "r < length h" "r < fuel"
  shows "\<exists>h1 h2. backward fuel r h = Some h1 \<and> backward_twice fuel r h = Some h2
    \<and> grad (h1 ! r) = 1 \<and> grad (h2 ! r) = 1
    \<and> (\<forall>v \<in> reachable h r. v \<noteq> r \<longrightarrow>
          grad (h2 ! v) = grad (h1 ! v) + (\<Sum>u \<in> reachable h r. contrib h u v * grad (h2 ! u)))
    \<and> grads_doubled h1 h2
         {v \<in> reachable h r. v \<noteq> r \<and> grad (h ! v) = 0
            \<and> (\<forall>u \<in> reachable h r. v \<in> set (u_prev (h ! u)) \<longrightarrow> u = r)}"
proof -
  from backward_root_grad[OF assms] obtain h1 where b1: "backward fuel r h = Some h1"
    and s1: "same_but_grad h h1" and r1: "grad (h1 ! r) = 1"
    by (elim exE conjE)
  have len1: "length h1 = length h" using s1 by (rule same_but_grad_length)
  have wf1: "wf_heap h1" using s1 assms(1) by (rule same_but_grad_wf)
  have rl1: "r < length h1" using assms(2) len1 by simp
  have reach1: "reachable h1 r = reachable h r" using s1 assms(1,2) by (rule reachable_same_but_grad)
  have valid: "\<And>u. u \<in> reachable h r \<Longrightarrow> u < length h"
    using reachable_valid[OF assms(1,2)] by auto
  have c1: "\<And>u v. u \<in> reachable h r \<Longrightarrow> contrib h1 u v = contrib h u v"
    using same_but_grad_contrib[OF s1 assms(1)] valid by simp
  have p1: "\<And>u. u \<in> reachable h r \<Longrightarrow> u_prev (h1 ! u) = u_prev (h ! u)"
    using same_but_grad_fields(2)[OF s1] valid by simp
  from backward_root_grad[OF wf1 rl1 assms(3)] obtain h2 where b2: "backward fuel r h1 = Some h2"
    and r2: "grad (h2 ! r) = 1"
    by (elim exE conjE)
  have bt: "backward_twice fuel r h = Some h2" using b1 b2 by (simp add: backward_twice_def)
  from backward_equation[OF wf1 rl1 assms(3)] b2
  have g2: "\<forall>v < length h1. grad (h2 ! v)
          = (if v = r then 1 else grad (h1 ! v))
            + (\<Sum>u \<in> reachable h1 r. contrib h1 u v * grad (h2 ! u))"
    by auto
  have eq2: "\<forall>v \<in> reachable h r. v \<noteq> r \<longrightarrow>
          grad (h2 ! v) = grad (h1 ! v) + (\<Sum>u \<in> reachable h r. contrib h u v * grad (h2 ! u))"
  proof (intro ballI impI)
    fix v assume v: "v \<in> reachable h r" "v \<noteq> r"
    have "(\<Sum>u \<in> reachable h r. contrib h1 u v * grad (h2 ! u))
            = (\<Sum>u \<in> reachable h r. contrib h u v * grad (h2 ! u))"
      using c1 by (intro sum.cong) simp_all
    then show "grad (h2 ! v)
        = grad (h1 ! v) + (\<Sum>u \<in> reachable h r. contrib h u v * grad (h2 ! u))"
      using g2 v valid[OF v(1)] len1 reach1 by simp
  qed
  have dbl: "grads_doubled h1 h2
         {v \<in> reachable h r. v \<noteq> r \<and> grad (h ! v) = 0
            \<and> (\<forall>u \<in> reachable h r. v \<in> set (u_prev (h ! u)) \<longrightarrow> u = r)}"
    unfolding grads_doubled_def
  proof (intro ballI)
    fix v assume "v \<in> {v \<in> reachable h r. v \<noteq> r \<and> grad (h ! v) = 0
            \<and> (\<forall>u \<in> reachable h r. v \<in> set (u_prev (h ! u)) \<longrightarrow> u = r)}"
    then have v: "v \<in> reachable h r" "v \<noteq> r" "grad (h ! v) = 0"
      and only: "\<And>u. u \<in> reachable h r \<Longrightarrow> v \<in> set (u_prev (h ! u)) \<Longrightarrow> u = r"
      by auto
    have vl: "v < length h" using v(1) by (rule valid)
    have "grad (h1 ! v) = grad (h ! v) + contrib h r v"
      using assms vl v(2) only b1 by (rule backward_only_root_consumer)
    moreover have "grad (h2 ! v) = grad (h1 ! v) + contrib h1 r v"
      using wf1 rl1 assms(3) _ v(2) _ b2
    proof (rule backward_only_root_consumer)
      show "v < length h1" using vl len1 by simp
      fix u assume "u \<in> reachable h1 r" "v \<in> set (u_prev (h1 ! u))"
      then show "u = r" using only reach1 p1 by simp
    qed
    moreover have "contrib h1 r v = contrib h r v" using c1 reachable_self by simp
    ultimately show "grad (h2 ! v) = 2 * grad (h1 ! v)" using v(3) by simp
  qed
  show ?thesis using b1 bt r1 r2 eq2 dbl by blast
qed

theorem backward_twice_accumulates_witness:
  "wf_heap (snd (Examples_basic_addition []))
   \<and> (2::nat) < length (snd (Examples_basic_addition [])) \<and> (2::nat) < 3
   \<and> map_option (map grad) (backward 3 2 (snd (Examples_basic_addition []))) = Some [1, 1, 1]
   \<and> map_option (map grad) (backward_twice 3 2 (snd (Examples_basic_addition [])))
       = Some [2, 2, 1]"
proof -
  let ?h = "snd (Examples_basic_addition [])"
  have w: "wf_heap ?h" by (rule wf_heap_Examples_basic_addition)
  have l: "(2::nat) < length ?h" by (simp add: Examples_basic_addition_eq)
  have f: "(2::nat) < 3" by simp
  have e1: "map_option (map grad) (backward 3 2 ?h) = Some [1, 1, 1]"
    by (simp add: Examples_basic_addition_eq backward_def eval_nat_numeral insert_commute
        set_grad_def add_grad_def)
  have e2: "map_option (map grad) (backward_twice 3 2 ?h) = Some [2, 2, 1]"
    by (simp add: Examples_basic_addition_eq backward_twice_def backward_def eval_nat_numeral
        insert_commute set_grad_def add_grad_def)
  from backward_twice_accumulates[OF w l f] w l f e1 e2 show ?thesis by blast
qed

section \<open>Gradients through a sum\<close>

lemma reachable_trans: "x \<in> reachable h y \<Longrightarrow> y \<in> reachable h z \<Longrightarrow> x \<in> reachable h z"
  by (auto simp: reachable_def)

lemma reachable_operand:
  "u \<in> reachable h r \<Longrightarrow> c \<in> set (u_prev (h ! u)) \<Longrightarrow> c \<in> reachable h r"
  using reachable_step[of c h u c] reachable_self[of c h] reachable_trans by blast

lemma contrib_cong:
  assumes "wf_heap h" "u < length h"
    and "\<And>w. w < length h \<Longrightarrow> data (h' ! w) = data (h ! w)"
    and "u_backward (h' ! u) = u_backward (h ! u)"
  shows "contrib h' u v = contrib h u v"
proof -
  have ok: "closure_ok u (u_prev (h ! u)) (u_backward (h ! u))"
    using assms(1,2) by (rule wf_heap_closure)
  have lt: "\<And>c. c \<in> set (u_prev (h ! u)) \<Longrightarrow> c < length h"
    using wf_heap_prev_less[OF assms(1,2)] assms(2) by fastforce
  show ?thesis
    using ok lt assms(2,3) unfolding contrib_def assms(4)
    by (cases "u_backward (h ! u)") auto
qed

lemma contrib_append:
  assumes "wf_heap h" "u < length h"
  shows "contrib (h @ xs) u v = contrib h u v"
  using assms by (rule contrib_cong) (use assms(2) in \<open>simp_all add: nth_append\<close>)

lemma reachable_snoc:
  assumes "wf_heap h" "\<forall>c \<in> set (u_prev x). c < length h"
  shows "reachable (h @ [x]) (length h) = insert (length h) (\<Union>c \<in> set (u_prev x). reachable h c)"
proof -
  have "reachable (h @ [x]) (length h)
          = insert (length h) (\<Union>c \<in> set (u_prev x). reachable (h @ [x]) c)"
    using reachable_unfold[of "h @ [x]" "length h"] by simp
  moreover have "\<And>c. c \<in> set (u_prev x) \<Longrightarrow> reachable (h @ [x]) c = reachable h c"
    using assms by (simp add: reachable_append)
  ultimately show ?thesis by simp
qed

text \<open>
  The sum node \<open>a.add(b)\<close> allocated on top of a well-formed heap: when \<open>v\<close> has no
  consumer below \<open>a\<close> and \<open>b\<close>, \<open>backward\<close> on the sum adds to \<open>v.grad\<close> once for
  each of the two operand positions that \<open>v\<close> fills.
\<close>

lemma add_backward_operand:
  assumes wf: "wf_heap h" and a: "a < length h" and b: "b < length h"
    and fuel: "length h < fuel" and v: "v < length h"
    and nc: "\<forall>u \<in> reachable h a \<union> reachable h b. v \<notin> set (u_prev (h ! u))"
  shows "\<exists>h1 h2. add a (Val b) h = (length h, h1) \<and> length h1 = Suc (length h)
    \<and> u_prev (h1 ! length h) = new_Set [a, b]
    \<and> data (h1 ! length h) = data (h ! a) + data (h ! b)
    \<and> backward fuel (length h) h1 = Some h2
    \<and> grad (h2 ! v) = grad (h ! v) + (if v = a then 1 else 0) + (if v = b then 1 else 0)"
proof -
  define x where "x = \<lparr>data = data (h ! a) + data (h ! b), grad = 0,
      u_backward = AddBw a b (length h), u_prev = new_Set [a, b], u_op = OpAdd, label = []\<rparr>"
  define h1 where "h1 = h @ [x]"
  have ad: "add a (Val b) h = (length h, h1)" by (simp add: add_Val_eq h1_def x_def)
  have px: "set (u_prev x) = {a, b}" by (simp add: x_def set_new_Set del: new_Set.simps)
  have wf1: "wf_heap h1"
    using wf_heap_add[OF wf a b] ad by simp
  have len1: "length h1 = Suc (length h)" by (simp add: h1_def)
  have s1: "length h < length h1" by (simp add: len1)
  have old: "\<And>w. w < length h \<Longrightarrow> h1 ! w = h ! w" by (simp add: h1_def nth_append)
  have new: "h1 ! length h = x" by (simp add: h1_def)
  have reach: "reachable h1 (length h) = insert (length h) (reachable h a \<union> reachable h b)"
    unfolding h1_def using reachable_snoc[OF wf, of x] a b px by auto
  from backward_root_grad[OF wf1 s1 fuel] obtain h2 where
    b2: "backward fuel (length h) h1 = Some h2"
    by (elim exE conjE)
  have "grad (h2 ! v) = grad (h1 ! v) + contrib h1 (length h) v"
    using wf1 s1 fuel _ _ _ b2
  proof (rule backward_only_root_consumer)
    show "v < length h1" using v len1 by simp
    show "v \<noteq> length h" using v by simp
    fix u assume u: "u \<in> reachable h1 (length h)" and vu: "v \<in> set (u_prev (h1 ! u))"
    show "u = length h"
    proof (rule ccontr)
      assume "u \<noteq> length h"
      then have ur: "u \<in> reachable h a \<union> reachable h b" using u reach by simp
      then have "u < length h"
        using reachable_valid[OF wf a] reachable_valid[OF wf b] by auto
      then have "v \<in> set (u_prev (h ! u))" using vu old by simp
      then show False using nc ur by blast
    qed
  qed
  moreover have "contrib h1 (length h) v = (if v = a then 1 else 0) + (if v = b then 1 else 0)"
    by (simp add: contrib_def new x_def)
  moreover have "grad (h1 ! v) = grad (h ! v)" using old v by simp
  ultimately have "grad (h2 ! v) = grad (h ! v) + (if v = a then 1 else 0) + (if v = b then 1 else 0)"
    by simp
  moreover have "u_prev (h1 ! length h) = new_Set [a, b]" by (simp add: new x_def)
  moreover have "data (h1 ! length h) = data (h ! a) + data (h ! b)" by (simp add: new x_def)
  ultimately show ?thesis using ad len1 b2 by blast
qed

lemma reachable_by_getNodes:
  assumes "wf_heap h" "r < length h" "getNodes (Suc r) r h = Some (nodes, edges)"
  shows "reachable h r = set nodes"
  using build_spec[OF assms(1,2) lessI, of "[]" "[]"] assms(3) by (simp add: getNodes_def)

text \<open>
  Claim C4, as stated: for all nodes \<open>a\<close> and \<open>b\<close>, \<open>backward\<close> on \<open>a.add(b)\<close> leaves
  \<open>a.grad = 1\<close> and \<open>b.grad = 1\<close>. It fails when \<open>a\<close> and \<open>b\<close> are the same node: for
  a fresh leaf \<open>a\<close>, \<open>backward\<close> on \<open>a.add(a)\<close> leaves \<open>a.grad = 2\<close>.
\<close>

theorem add_same_node_grad_not_one:
  "fst (add 0 (Val 0) (snd (createValue 3 ''a'' []))) = 1
   \<and> map_option (map grad) (backward 2 1 (snd (add 0 (Val 0) (snd (createValue 3 ''a'' [])))))
       = Some [2, 1]
   \<and> grad (the (backward 2 1 (snd (add 0 (Val 0) (snd (createValue 3 ''a'' []))))) ! 0) \<noteq> 1"
  by (simp add: createValue_eq add_Val_eq backward_def eval_nat_numeral
      set_grad_def add_grad_def)

text \<open>
  Claim C4, amended. Let \<open>a\<close> and \<open>b\<close> be nodes of a well-formed heap, neither
  reachable from the other through operand links (so they are two nodes), both with
  gradient 0. Then \<open>a.add(b)\<close> returns a new node whose \<open>data\<close> is
  \<open>a.data + b.data\<close>, and \<open>backward\<close> on that node returns and leaves \<open>a.grad = 1\<close>
  and \<open>b.grad = 1\<close>.
\<close>

theorem add_backward_grads:
  assumes "wf_heap h" "a < length h" "b < length h"
    and "grad (h ! a) = 0" "grad (h ! b) = 0"
    and "a \<notin> reachable h b" "b \<notin> reachable h a"
    and "length h < fuel"
  shows "\<exists>h1 h2. add a (Val b) h = (length h, h1)
    \<and> data (h1 ! length h) = data (h ! a) + data (h ! b)
    \<and> backward fuel (length h) h1 = Some h2
    \<and> grad (h2 ! a) = 1 \<and> grad (h2 ! b) = 1"
proof -
  have ab: "a \<noteq> b" using assms(6) reachable_self[of b h] by auto
  have nca: "\<forall>u \<in> reachable h a \<union> reachable h b. a \<notin> set (u_prev (h ! u))"
  proof
    fix u assume "u \<in> reachable h a \<union> reachable h b"
    then show "a \<notin> set (u_prev (h ! u))"
    proof
      assume "u \<in> reachable h a"
      with assms(1,2) show ?thesis by (rule not_operand_of_reachable)
    next
      assume "u \<in> reachable h b"
      then show ?thesis using reachable_operand assms(6) by blast
    qed
  qed
  have ncb: "\<forall>u \<in> reachable h a \<union> reachable h b. b \<notin> set (u_prev (h ! u))"
  proof
    fix u assume "u \<in> reachable h a \<union> reachable h b"
    then show "b \<notin> set (u_prev (h ! u))"
    proof
      assume "u \<in> reachable h b"
      with assms(1,3) show ?thesis by (rule not_operand_of_reachable)
    next
      assume "u \<in> reachable h a"
      then show ?thesis using reachable_operand assms(7) by blast
    qed
  qed
  from add_backward_operand[OF assms(1,2,3,8) assms(2) nca] obtain h1 h2 where
    ad: "add a (Val b) h = (length h, h1)"
    and d: "data (h1 ! length h) = data (h ! a) + data (h ! b)"
    and b2: "backward fuel (length h) h1 = Some h2"
    and ga: "grad (h2 ! a) = grad (h ! a) + (if a = a then 1 else 0) + (if a = b then 1 else 0)"
    by (elim exE conjE)
  from add_backward_operand[OF assms(1,2,3,8) assms(3) ncb] ad b2
  have gb: "grad (h2 ! b) = grad (h ! b) + (if b = a then 1 else 0) + (if b = b then 1 else 0)"
    by auto
  have "grad (h2 ! a) = 1" using ga ab assms(4) by simp
  moreover have "grad (h2 ! b) = 1" using gb ab assms(5) by simp
  ultimately show ?thesis using ad d b2 by blast
qed

theorem add_backward_grads_witness:
  "wf_heap (snd (createValue (- 3) ''b'' (snd (createValue 2 ''a'' []))))
   \<and> (0::nat) < length (snd (createValue (- 3) ''b'' (snd (createValue 2 ''a'' []))))
   \<and> (1::nat) < length (snd (createValue (- 3) ''b'' (snd (createValue 2 ''a'' []))))
   \<and> 0 \<notin> reachable (snd (createValue (- 3) ''b'' (snd (createValue 2 ''a'' [])))) 1
   \<and> 1 \<notin> reachable (snd (createValue (- 3) ''b'' (snd (createValue 2 ''a'' [])))) 0
   \<and> fst (add 0 (Val 1) (snd (createValue (- 3) ''b'' (snd (createValue 2 ''a'' []))))) = 2
   \<and> map_option (map grad)
        (backward 3 2 (snd (add 0 (Val 1) (snd (createValue (- 3) ''b'' (snd (createValue 2 ''a'' [])))))))
       = Some [1, 1, 1]"
proof -
  let ?h = "snd (createValue (- 3) ''b'' (snd (createValue 2 ''a'' [])))"
  have w: "wf_heap ?h" by (simp add: createValue_eq wf_heap_code)
  have la: "(0::nat) < length ?h" and lb: "(1::nat) < length ?h" by (simp_all add: createValue_eq)
  have ga: "grad (?h ! 0) = 0" and gb: "grad (?h ! 1) = 0" by (simp_all add: createValue_eq)
  have r1: "reachable ?h 1 = set [1]"
    by (rule reachable_by_getNodes[OF w lb]) (simp add: getNodes_def createValue_eq)
  have r0: "reachable ?h 0 = set [0]"
    by (rule reachable_by_getNodes[OF w la]) (simp add: getNodes_def createValue_eq)
  have na: "0 \<notin> reachable ?h 1" and nb: "1 \<notin> reachable ?h 0"
    unfolding r0 r1 by simp_all
  have f: "length ?h < 3" by (simp add: createValue_eq)
  have e: "fst (add 0 (Val 1) ?h) = 2
     \<and> map_option (map grad) (backward 3 2 (snd (add 0 (Val 1) ?h))) = Some [1, 1, 1]"
    by (simp add: createValue_eq add_Val_eq backward_def eval_nat_numeral insert_commute
        set_grad_def add_grad_def)
  from add_backward_grads[OF w la lb ga gb na nb f] w la lb na nb e show ?thesis by blast
qed

text \<open>
  Claim C10. For a node \<open>a\<close> of a well-formed heap, \<open>a.add(a)\<close> returns a new node
  whose \<open>_prev\<close> holds the one element \<open>a\<close> (the Set drops the repeated
  reference) and whose \<open>data\<close> is \<open>2 * a.data\<close>. \<open>backward\<close> on that node returns,
  and \<open>a.grad\<close>, 0 before the call, is 2 after it: the \<open>_backward\<close> function adds
  to \<open>this.grad\<close> and to \<open>other.grad\<close>, which are the same field.
\<close>

theorem add_self_grad:
  assumes "wf_heap h" "a < length h" "grad (h ! a) = 0" "length h < fuel"
  shows "\<exists>h1 h2. add a (Val a) h = (length h, h1)
    \<and> u_prev (h1 ! length h) = [a] \<and> data (h1 ! length h) = 2 * data (h ! a)
    \<and> backward fuel (length h) h1 = Some h2 \<and> grad (h2 ! a) = 2"
proof -
  have nc: "\<forall>u \<in> reachable h a \<union> reachable h a. a \<notin> set (u_prev (h ! u))"
    using not_operand_of_reachable[OF assms(1,2)] by simp
  from add_backward_operand[OF assms(1,2,2,4) assms(2) nc] obtain h1 h2 where
    ad: "add a (Val a) h = (length h, h1)"
    and p: "u_prev (h1 ! length h) = new_Set [a, a]"
    and d: "data (h1 ! length h) = data (h ! a) + data (h ! a)"
    and b2: "backward fuel (length h) h1 = Some h2"
    and g: "grad (h2 ! a) = grad (h ! a) + (if a = a then 1 else 0) + (if a = a then 1 else 0)"
    by (elim exE conjE)
  have "u_prev (h1 ! length h) = [a]" using p by simp
  moreover have "data (h1 ! length h) = 2 * data (h ! a)" using d by simp
  moreover have "grad (h2 ! a) = 2" using g assms(3) by simp
  ultimately show ?thesis using ad b2 by blast
qed

theorem add_self_grad_witness:
  "wf_heap (snd (createValue 3 ''a'' []))
   \<and> (0::nat) < length (snd (createValue 3 ''a'' []))
   \<and> grad (snd (createValue 3 ''a'' []) ! 0) = 0
   \<and> length (snd (createValue 3 ''a'' [])) < 2
   \<and> add 0 (Val 0) (snd (createValue 3 ''a'' []))
       = (1, [\<lparr>data = 3, grad = 0, u_backward = Noop, u_prev = [], u_op = OpNone,
                label = ''a''\<rparr>,
              \<lparr>data = 6, grad = 0, u_backward = AddBw 0 0 1, u_prev = [0], u_op = OpAdd,
                label = []\<rparr>])
   \<and> map_option (map grad) (backward 2 1 (snd (add 0 (Val 0) (snd (createValue 3 ''a'' [])))))
       = Some [2, 1]"
proof -
  let ?h = "snd (createValue 3 ''a'' [])"
  have w: "wf_heap ?h" by (simp add: createValue_eq wf_heap_code)
  have l: "(0::nat) < length ?h" by (simp add: createValue_eq)
  have g: "grad (?h ! 0) = 0" by (simp add: createValue_eq)
  have f: "length ?h < 2" by (simp add: createValue_eq)
  have e: "add 0 (Val 0) ?h
       = (1, [\<lparr>data = 3, grad = 0, u_backward = Noop, u_prev = [], u_op = OpNone,
                label = ''a''\<rparr>,
              \<lparr>data = 6, grad = 0, u_backward = AddBw 0 0 1, u_prev = [0], u_op = OpAdd,
                label = []\<rparr>])
     \<and> map_option (map grad) (backward 2 1 (snd (add 0 (Val 0) ?h))) = Some [2, 1]"
    by (simp add: createValue_eq add_Val_eq backward_def eval_nat_numeral
        set_grad_def add_grad_def)
  from add_self_grad[OF w l g f] w l g f e show ?thesis by blast
qed

text \<open>
  Claim C6. Let \<open>x\<close> be an operand of two different nodes \<open>p\<close> and \<open>q\<close> of a
  well-formed heap, and let the root be \<open>p.add(q)\<close>, where \<open>x\<close>, \<open>p\<close> and \<open>q\<close> have
  gradient 0, neither of \<open>p\<close> and \<open>q\<close> is reachable from the other, and \<open>x\<close> has no
  consumer below the root other than \<open>p\<close> and \<open>q\<close>. Then \<open>backward\<close> on the root
  returns, \<open>p.grad\<close> and \<open>q.grad\<close> are 1, and \<open>x.grad\<close> is the sum of the gradients
  of the two paths: the local derivative of \<open>p\<close> in \<open>x\<close> times \<open>p.grad\<close>, plus the
  local derivative of \<open>q\<close> in \<open>x\<close> times \<open>q.grad\<close>. The second contribution is added
  to the first and does not overwrite it.
\<close>

theorem shared_operand_grad:
  assumes "wf_heap h" "p < length h" "q < length h"
    and "x \<in> set (u_prev (h ! p))" "x \<in> set (u_prev (h ! q))"
    and "grad (h ! x) = 0" "grad (h ! p) = 0" "grad (h ! q) = 0"
    and "p \<notin> reachable h q" "q \<notin> reachable h p"
    and "\<forall>u \<in> reachable h p \<union> reachable h q. x \<in> set (u_prev (h ! u)) \<longrightarrow> u = p \<or> u = q"
    and "length h < fuel"
  shows "\<exists>h1 h2. add p (Val q) h = (length h, h1) \<and> backward fuel (length h) h1 = Some h2
    \<and> p \<noteq> q \<and> grad (h2 ! p) = 1 \<and> grad (h2 ! q) = 1
    \<and> grad (h2 ! x) = contrib h p x * grad (h2 ! p) + contrib h q x * grad (h2 ! q)"
proof -
  have pq: "p \<noteq> q" using assms(9) reachable_self[of q h] by auto
  have xp: "x < p" using assms(1,2,4) by (rule wf_heap_prev_less)
  have xq: "x < q" using assms(1,3,5) by (rule wf_heap_prev_less)
  have xl: "x < length h" using xp assms(2) by simp
  have ncp: "\<forall>u \<in> reachable h p \<union> reachable h q. p \<notin> set (u_prev (h ! u))"
  proof
    fix u assume "u \<in> reachable h p \<union> reachable h q"
    then show "p \<notin> set (u_prev (h ! u))"
    proof
      assume "u \<in> reachable h p"
      with assms(1,2) show ?thesis by (rule not_operand_of_reachable)
    next
      assume "u \<in> reachable h q"
      then show ?thesis using reachable_operand assms(9) by blast
    qed
  qed
  have ncq: "\<forall>u \<in> reachable h p \<union> reachable h q. q \<notin> set (u_prev (h ! u))"
  proof
    fix u assume "u \<in> reachable h p \<union> reachable h q"
    then show "q \<notin> set (u_prev (h ! u))"
    proof
      assume "u \<in> reachable h q"
      with assms(1,3) show ?thesis by (rule not_operand_of_reachable)
    next
      assume "u \<in> reachable h p"
      then show ?thesis using reachable_operand assms(10) by blast
    qed
  qed
  from add_backward_operand[OF assms(1,2,3,12) assms(2) ncp] obtain h1 h2 where
    ad: "add p (Val q) h = (length h, h1)"
    and len1: "length h1 = Suc (length h)"
    and pr: "u_prev (h1 ! length h) = new_Set [p, q]"
    and b2: "backward fuel (length h) h1 = Some h2"
    and gp: "grad (h2 ! p) = grad (h ! p) + (if p = p then 1 else 0) + (if p = q then 1 else 0)"
    by (elim exE conjE)
  from add_backward_operand[OF assms(1,2,3,12) assms(3) ncq] ad b2
  have gq: "grad (h2 ! q) = grad (h ! q) + (if q = p then 1 else 0) + (if q = q then 1 else 0)"
    by auto
  have gp1: "grad (h2 ! p) = 1" using gp pq assms(7) by simp
  have gq1: "grad (h2 ! q) = 1" using gq pq assms(8) by simp
  have h1: "h1 = snd (add p (Val q) h)" using ad by simp
  have wf1: "wf_heap h1" unfolding h1 using assms(1,2,3) by (rule wf_heap_add)
  have s1: "length h < length h1" using len1 by simp
  have app: "\<exists>y. h1 = h @ [y]" unfolding h1 by (simp add: add_Val_eq)
  then obtain y where hy: "h1 = h @ [y]" by blast
  have old: "\<And>w. w < length h \<Longrightarrow> h1 ! w = h ! w" by (simp add: hy nth_append)
  have py: "set (u_prev y) = {p, q}"
    using pr pq by (auto simp: hy)
  have reach: "reachable h1 (length h) = insert (length h) (reachable h p \<union> reachable h q)"
    unfolding hy using reachable_snoc[OF assms(1), of y] assms(2,3) py by auto
  have valid: "\<And>u. u \<in> reachable h p \<union> reachable h q \<Longrightarrow> u < length h"
    using reachable_valid[OF assms(1,2)] reachable_valid[OF assms(1,3)] by auto
  from backward_equation[OF wf1 s1 assms(12)] b2
  have g: "\<forall>v < length h1. grad (h2 ! v)
          = (if v = length h then 1 else grad (h1 ! v))
            + (\<Sum>u \<in> reachable h1 (length h). contrib h1 u v * grad (h2 ! u))"
    by auto
  have "(\<Sum>u \<in> reachable h1 (length h). contrib h1 u x * grad (h2 ! u))
          = contrib h1 p x * grad (h2 ! p) + contrib h1 q x * grad (h2 ! q)"
  proof (rule sum_two_terms)
    show "finite (reachable h1 (length h))" using wf1 s1 by (rule finite_reachable)
    show "p \<in> reachable h1 (length h)" using reach reachable_self by auto
    show "q \<in> reachable h1 (length h)" using reach reachable_self by auto
    show "p \<noteq> q" by (rule pq)
    fix u assume u: "u \<in> reachable h1 (length h)" "u \<noteq> p" "u \<noteq> q"
    have ul: "u < length h1" using reachable_valid[OF wf1 s1] u(1) by auto
    have "x \<notin> set (u_prev (h1 ! u))"
    proof (cases "u = length h")
      case True
      then show ?thesis using pr xp xq by (simp add: set_new_Set del: new_Set.simps)
    next
      case False
      then have ur: "u \<in> reachable h p \<union> reachable h q" using u(1) reach by simp
      then have "x \<notin> set (u_prev (h ! u))" using assms(11) u(2,3) by blast
      then show ?thesis using old valid[OF ur] by simp
    qed
    then have "contrib h1 u x = 0" using wf1 ul by (intro contrib_zero)
    then show "contrib h1 u x * grad (h2 ! u) = 0" by simp
  qed
  moreover have "contrib h1 p x = contrib h p x" "contrib h1 q x = contrib h q x"
    unfolding hy using assms(1,2,3) by (simp_all add: contrib_append)
  moreover have "grad (h1 ! x) = 0" using old xl assms(6) by simp
  ultimately have "grad (h2 ! x) = contrib h p x * grad (h2 ! p) + contrib h q x * grad (h2 ! q)"
    using g xl len1 by simp
  then show ?thesis using ad b2 pq gp1 gq1 by blast
qed

theorem shared_operand_grad_witness:
  "wf_heap shared_operand_heap
   \<and> fst (add 3 (Val 4) shared_operand_heap) = 5
   \<and> map_option (map grad) (backward 6 5 (snd (add 3 (Val 4) shared_operand_heap)))
       = Some [8, 2, 2, 1, 1, 1]
   \<and> contrib shared_operand_heap 3 0 = 3 \<and> contrib shared_operand_heap 4 0 = 5"
proof -
  let ?h = "shared_operand_heap"
  have heap: "?h =
     [\<lparr>data = 2, grad = 0, u_backward = Noop, u_prev = [], u_op = OpNone, label = ''a''\<rparr>,
      \<lparr>data = 3, grad = 0, u_backward = Noop, u_prev = [], u_op = OpNone, label = ''b''\<rparr>,
      \<lparr>data = 5, grad = 0, u_backward = Noop, u_prev = [], u_op = OpNone, label = ''c''\<rparr>,
      \<lparr>data = 6, grad = 0, u_backward = MulBw 0 1 3, u_prev = [0, 1], u_op = OpMul, label = []\<rparr>,
      \<lparr>data = 10, grad = 0, u_backward = MulBw 0 2 4, u_prev = [0, 2], u_op = OpMul, label = []\<rparr>]"
    by (simp add: shared_operand_heap_def createValue_eq mul_Val_eq nth_append)
  have w: "wf_heap ?h" unfolding heap by (simp add: wf_heap_code)
  have lp: "3 < length ?h" and lq: "4 < length ?h" unfolding heap by simp_all
  have xp: "0 \<in> set (u_prev (?h ! 3))" and xq: "0 \<in> set (u_prev (?h ! 4))"
    unfolding heap by simp_all
  have g0: "grad (?h ! 0) = 0" and g3: "grad (?h ! 3) = 0" and g4: "grad (?h ! 4) = 0"
    unfolding heap by simp_all
  have r3: "reachable ?h 3 = set [3, 0, 1]"
    by (rule reachable_by_getNodes[OF w lp]) (simp add: heap getNodes_def eval_nat_numeral)
  have r4: "reachable ?h 4 = set [4, 0, 2]"
    by (rule reachable_by_getNodes[OF w lq]) (simp add: heap getNodes_def eval_nat_numeral)
  have np: "3 \<notin> reachable ?h 4" and nq: "4 \<notin> reachable ?h 3" unfolding r3 r4 by simp_all
  have only: "\<forall>u \<in> reachable ?h 3 \<union> reachable ?h 4. 0 \<in> set (u_prev (?h ! u)) \<longrightarrow> u = 3 \<or> u = 4"
    unfolding r3 r4 by (simp add: heap)
  have f: "length ?h < 6" unfolding heap by simp
  have e: "fst (add 3 (Val 4) ?h) = 5
     \<and> map_option (map grad) (backward 6 5 (snd (add 3 (Val 4) ?h))) = Some [8, 2, 2, 1, 1, 1]"
    unfolding heap
    by (simp add: add_Val_eq backward_def eval_nat_numeral insert_commute
        set_grad_def add_grad_def)
  have c: "contrib ?h 3 0 = 3 \<and> contrib ?h 4 0 = 5" unfolding heap by (simp add: contrib_def)
  from shared_operand_grad[OF w lp lq xp xq g0 g3 g4 np nq only f] w e c show ?thesis by blast
qed

section \<open>Every operation keeps the heap well-formed\<close>

lemma wf_heap_op_node:
  assumes "wf_heap h" "\<forall>c \<in> set cs. c < length h" "closure_ok (length h) (new_Set cs) cl"
  shows "wf_heap (set_backward (length h) cl (snd (new_Value d cs op l h)))"
proof -
  have "set_backward (length h) cl (snd (new_Value d cs op l h))
          = h @ [\<lparr>data = d, grad = 0, u_backward = cl, u_prev = new_Set cs, u_op = op,
                  label = l\<rparr>]"
    by (simp add: set_backward_def new_Value_def)
  moreover have "wf_heap (h @ [\<lparr>data = d, grad = 0, u_backward = cl, u_prev = new_Set cs,
      u_op = op, label = l\<rparr>])"
    using assms by (intro wf_heap_snoc) (simp_all add: set_new_Set distinct_new_Set)
  ultimately show ?thesis by simp
qed

lemma wf_heap_as_Value:
  assumes "wf_heap h" "operand_ok h x"
  shows "wf_heap (snd (as_Value x h))" "fst (as_Value x h) < length (snd (as_Value x h))"
    "length h \<le> length (snd (as_Value x h))"
proof -
  show "wf_heap (snd (as_Value x h))"
  proof (cases x)
    case (Val a)
    then show ?thesis using assms by simp
  next
    case (Num y)
    have "wf_heap (h @ [\<lparr>data = y, grad = 0, u_backward = Noop, u_prev = [], u_op = OpNone,
        label = []\<rparr>])"
      using assms(1) by (intro wf_heap_snoc) simp_all
    then show ?thesis using Num by (simp add: new_Value_def)
  qed
  show "fst (as_Value x h) < length (snd (as_Value x h))"
    using assms(2) by (cases x) (simp_all add: new_Value_def)
  show "length h \<le> length (snd (as_Value x h))"
    by (cases x) (simp_all add: new_Value_def)
qed

lemma wf_heap_add_any:
  assumes "wf_heap h" "this < length h" "operand_ok h x"
  shows "wf_heap (snd (add this x h))"
proof -
  obtain b h1 where av: "as_Value x h = (b, h1)" by (cases "as_Value x h")
  have w1: "wf_heap h1" and b1: "b < length h1" and l1: "length h \<le> length h1"
    using wf_heap_as_Value[OF assms(1,3)] av by simp_all
  have "snd (add this x h)
          = set_backward (length h1) (AddBw this b (length h1))
              (snd (new_Value (data (h1 ! this) + data (h1 ! b)) [this, b] OpAdd [] h1))"
    by (simp add: add_def av new_Value_def)
  moreover have "wf_heap (set_backward (length h1) (AddBw this b (length h1))
              (snd (new_Value (data (h1 ! this) + data (h1 ! b)) [this, b] OpAdd [] h1)))"
    using w1 b1 l1 assms(2)
    by (intro wf_heap_op_node) (auto simp: set_new_Set simp del: new_Set.simps)
  ultimately show ?thesis by simp
qed

lemma wf_heap_mul_any:
  assumes "wf_heap h" "this < length h" "operand_ok h x"
  shows "wf_heap (snd (mul this x h))"
proof -
  obtain b h1 where av: "as_Value x h = (b, h1)" by (cases "as_Value x h")
  have w1: "wf_heap h1" and b1: "b < length h1" and l1: "length h \<le> length h1"
    using wf_heap_as_Value[OF assms(1,3)] av by simp_all
  have "snd (mul this x h)
          = set_backward (length h1) (MulBw this b (length h1))
              (snd (new_Value (data (h1 ! this) * data (h1 ! b)) [this, b] OpMul [] h1))"
    by (simp add: mul_def av new_Value_def)
  moreover have "wf_heap (set_backward (length h1) (MulBw this b (length h1))
              (snd (new_Value (data (h1 ! this) * data (h1 ! b)) [this, b] OpMul [] h1)))"
    using w1 b1 l1 assms(2)
    by (intro wf_heap_op_node) (auto simp: set_new_Set simp del: new_Set.simps)
  ultimately show ?thesis by simp
qed

lemma wf_heap_pow:
  assumes "wf_heap h" "this < length h"
  shows "wf_heap (snd (pow this e h))"
proof (cases e)
  case (JNumber p)
  have "snd (pow this (JNumber p) h)
          = set_backward (length h) (PowBw this p (length h))
              (snd (new_Value (Math_pow (data (h ! this)) p) [this] (OpPow p) [] h))"
    by (simp add: pow_def new_Value_def)
  moreover have "wf_heap (set_backward (length h) (PowBw this p (length h))
              (snd (new_Value (Math_pow (data (h ! this)) p) [this] (OpPow p) [] h)))"
    using assms by (intro wf_heap_op_node) simp_all
  ultimately show ?thesis using JNumber by simp
next
  case (JValue a)
  then show ?thesis using assms(1) by (simp add: pow_def)
next
  case JOther
  then show ?thesis using assms(1) by (simp add: pow_def)
qed

lemma wf_heap_relu:
  assumes "wf_heap h" "this < length h"
  shows "wf_heap (snd (relu this h))"
proof -
  have "snd (relu this h)
          = set_backward (length h) (ReluBw this (length h))
              (snd (new_Value (if data (h ! this) < 0 then 0 else data (h ! this))
                     [this] OpReLU [] h))"
    by (simp add: relu_def new_Value_def)
  moreover have "wf_heap (set_backward (length h) (ReluBw this (length h))
              (snd (new_Value (if data (h ! this) < 0 then 0 else data (h ! this))
                     [this] OpReLU [] h)))"
    using assms by (intro wf_heap_op_node) simp_all
  ultimately show ?thesis by simp
qed

lemma wf_heap_tanh:
  assumes "wf_heap h" "this < length h"
  shows "wf_heap (snd (tanh_op this h))"
proof -
  define t where "t = (exp (2 * data (h ! this)) - 1) / (exp (2 * data (h ! this)) + 1)"
  have "snd (tanh_op this h)
          = set_backward (length h) (TanhBw this t (length h))
              (snd (new_Value t [this] OpTanh [] h))"
    by (simp add: tanh_op_def new_Value_def t_def Let_def)
  moreover have "wf_heap (set_backward (length h) (TanhBw this t (length h))
              (snd (new_Value t [this] OpTanh [] h)))"
    using assms by (intro wf_heap_op_node) simp_all
  ultimately show ?thesis by simp
qed

lemma wf_heap_exp:
  assumes "wf_heap h" "this < length h"
  shows "wf_heap (snd (exp_op this h))"
proof -
  have "snd (exp_op this h)
          = set_backward (length h) (ExpBw this (length h))
              (snd (new_Value (exp (data (h ! this))) [this] OpExp [] h))"
    by (simp add: exp_op_def new_Value_def)
  moreover have "wf_heap (set_backward (length h) (ExpBw this (length h))
              (snd (new_Value (exp (data (h ! this))) [this] OpExp [] h)))"
    using assms by (intro wf_heap_op_node) simp_all
  ultimately show ?thesis by simp
qed

lemma wf_heap_neg:
  assumes "wf_heap h" "this < length h"
  shows "wf_heap (snd (neg this h))"
  unfolding neg_def using assms by (intro wf_heap_mul_any) simp_all

lemma mul_result: "fst (mul this x h) < length (snd (mul this x h))"
  by (cases x) (simp_all add: mul_def new_Value_def set_backward_def)

lemma wf_heap_sub:
  assumes "wf_heap h" "this < length h" "operand_ok h x"
  shows "wf_heap (snd (sub this x h))"
proof -
  obtain b h1 where av: "as_Value x h = (b, h1)" by (cases "as_Value x h")
  have w1: "wf_heap h1" and b1: "b < length h1" and l1: "length h \<le> length h1"
    using wf_heap_as_Value[OF assms(1,3)] av by simp_all
  obtain n h2 where ng: "neg b h1 = (n, h2)" by (cases "neg b h1")
  have w2: "wf_heap h2" using wf_heap_neg[OF w1 b1] ng by simp
  have n2: "n < length h2" using mul_result[of b "Num (- 1)" h1] ng by (simp add: neg_def)
  have "length h1 < length h2" using neg_frame[of h1 b] ng by simp
  then have t2: "this < length h2" using assms(2) l1 by simp
  have "snd (sub this x h) = snd (add this (Val n) h2)" by (simp add: sub_def av ng)
  moreover have "wf_heap (snd (add this (Val n) h2))"
    using w2 t2 n2 by (intro wf_heap_add_any) simp_all
  ultimately show ?thesis by simp
qed

lemma wf_heap_div:
  assumes "wf_heap h" "this < length h" "operand_ok h x"
  shows "wf_heap (snd (div_op this x h))"
proof -
  obtain b h1 where av: "as_Value x h = (b, h1)" by (cases "as_Value x h")
  have w1: "wf_heap h1" and b1: "b < length h1" and l1: "length h \<le> length h1"
    using wf_heap_as_Value[OF assms(1,3)] av by simp_all
  obtain v where pw: "pow b (JNumber (- 1)) h1 = (Inr (length h1), h1 @ [v])"
    by (auto simp: pow_def new_Value_def set_backward_def)
  have w2: "wf_heap (h1 @ [v])" using wf_heap_pow[OF w1 b1, of "JNumber (- 1)"] pw by simp
  have "snd (div_op this x h) = snd (mul this (Val (length h1)) (h1 @ [v]))"
    by (simp add: div_op_def av pw split_def Let_def)
  moreover have "wf_heap (snd (mul this (Val (length h1)) (h1 @ [v])))"
    using w2 assms(2) l1 by (intro wf_heap_mul_any) simp_all
  ultimately show ?thesis by simp
qed

end
